theory Spec2Isabelle
  imports Main "HOL-Library.Word" "HOL-Library.Finite_Map"
begin

section \<open>Messages of the consensus package\<close>

text \<open>
  The message structs are declared outside the two files at hand; their fields are taken
  from the places where \<^verbatim>\<open>State\<close> and \<^verbatim>\<open>Node\<close> read and write them.
  Go's \<^verbatim>\<open>int64\<close> is a 64-bit word, \<^verbatim>\<open>int32\<close> a 32-bit word (read as signed with
  \<open>sint\<close>), a pointer that may be nil is an \<open>option\<close>, a Go map is a finite map.
\<close>

type_synonym int64 = "64 word"
type_synonym int32 = "32 word"

text \<open>Modelled from the spec: RequestMsg is \<^verbatim>\<open>{clientID, timestamp, operation, data, sequenceID}\<close>.\<close>

record RequestMsg =
  Timestamp :: int64
  ClientID :: string
  Operation :: string
  Data :: string
  SequenceID :: int64

text \<open>Modelled from the spec: ReplyMsg is \<^verbatim>\<open>{viewID, timestamp, clientID, nodeID, result}\<close>.\<close>

record ReplyMsg =
  rViewID :: int64
  rTimestamp :: int64
  rClientID :: string
  rNodeID :: string
  rResult :: string

text \<open>Modelled from the spec: PrePrepareMsg is \<^verbatim>\<open>{viewID, sequenceID, digest, request}\<close>;
  the request is a pointer.\<close>

record PrePrepareMsg =
  ppViewID :: int64
  ppSequenceID :: int64
  ppDigest :: string
  ppRequestMsg :: "RequestMsg option"

datatype MsgType = PrepareMsg | CommitMsg

text \<open>Modelled from the spec: VoteMsg is \<^verbatim>\<open>{viewID, sequenceID, digest, nodeID, kind}\<close>.\<close>

record VoteMsg =
  vViewID :: int64
  vSequenceID :: int64
  vDigest :: string
  vNodeID :: string
  vMsgType :: MsgType

text \<open>Modelled from the spec: CheckPointMsg is \<^verbatim>\<open>{sequenceID, digest, nodeID}\<close>.\<close>

record CheckPointMsg =
  cSequenceID :: int64
  cDigest :: string
  cNodeID :: string

text \<open>Modelled from the spec: the stage of an instance is one of IDLE, PRE_PREPARED,
  PREPARED, COMMITTED.\<close>

datatype Stage = Idle | PrePrepared | Prepared | Committed

section \<open>The per-sequence instance: \<^verbatim>\<open>State\<close>\<close>

text \<open>
  \<^verbatim>\<open>State\<close> and its \<^verbatim>\<open>MsgLogs\<close> are one record here (the state owns its logs; each
  mutex is held for one write to its map, which is one step below). The vote maps hold
  pointers, and
  \<^verbatim>\<open>CreateState\<close> stores a nil pointer for the primary, so their values are options.
  The two totals are \<^verbatim>\<open>int32\<close> and \<^verbatim>\<open>atomic.AddInt32\<close> wraps around. \<^verbatim>\<open>f\<close> is a Go
  \<^verbatim>\<open>int\<close> computed once from the number of nodes; it is an \<open>int\<close> here, and
  \<^verbatim>\<open>2*state.f\<close> stays far from the range of a machine \<^verbatim>\<open>int\<close>.

  Modelled from the spec: \<^verbatim>\<open>Node\<close> reads the fields \<^verbatim>\<open>F\<close> and \<^verbatim>\<open>CheckPointState\<close> of a
  state, which the struct at hand does not declare. \<^verbatim>\<open>F\<close> is taken to be \<^verbatim>\<open>f\<close>, and
  \<^verbatim>\<open>CheckPointState\<close> is the spec's \<^verbatim>\<open>checkpointState\<close>, 0 for PENDING and 1 for STABLE.
\<close>

record State =
  ViewID :: int64
  ReqMsg :: "RequestMsg option"
  PrepareMsgs :: "(string, VoteMsg option) fmap"
  CommitMsgs :: "(string, VoteMsg option) fmap"
  TotalPrepareMsg :: int32
  TotalCommitMsg :: int32
  StateSequenceID :: int64
  CurrentStage :: Stage
  f :: int
  CheckPointState :: int

datatype verify_error = WrongView | WrongSequence | DigestFailed | WrongDigest

datatype error =
    PrePrepareCorrupted verify_error
  | PrepareCorrupted verify_error
  | CommitCorrupted verify_error
  | NotPrepared
  | DigestError
  | NilDereference

text \<open>
  \<^verbatim>\<open>digest\<close> marshals its argument to JSON and hashes the bytes; \<^verbatim>\<open>Hash\<close> is not in the
  files at hand. The whole of \<^verbatim>\<open>digest\<close> is a parameter \<open>dg\<close> of every operation: it
  takes the request pointer (nil marshals to \<^verbatim>\<open>null\<close>) and returns the digest or the
  marshalling error.
\<close>

type_synonym digest_fn = "RequestMsg option \<Rightarrow> error + string"

text \<open>Go's integer division truncates towards zero.\<close>

definition go_div :: "int \<Rightarrow> int \<Rightarrow> int" where
  "go_div a b = sgn a * sgn b * (\<bar>a\<bar> div \<bar>b\<bar>)"

definition CreateState :: "int64 \<Rightarrow> int \<Rightarrow> string \<Rightarrow> State" where
  "CreateState viewID totNodes primaryID =
     \<lparr> ViewID = viewID,
       ReqMsg = None,
       PrepareMsgs = fmupd primaryID None fmempty,
       CommitMsgs = fmempty,
       TotalPrepareMsg = 0 + 1,
       TotalCommitMsg = 0,
       StateSequenceID = 0,
       CurrentStage = Idle,
       f = go_div (totNodes - 1) 3,
       CheckPointState = 0 \<rparr>"

text \<open>
  \<^verbatim>\<open>StartConsensus\<close> writes the sequence number into the state and into the request,
  stores the request, and only then computes the digest. Its caller has already read a
  field of the request, so the request is not nil here.
\<close>

definition StartConsensus ::
  "digest_fn \<Rightarrow> State \<Rightarrow> RequestMsg \<Rightarrow> int64 \<Rightarrow> State \<times> (error + PrePrepareMsg)" where
  "StartConsensus dg state request sequenceID =
     (let request' = request\<lparr>SequenceID := sequenceID\<rparr>;
          state1 = state\<lparr>StateSequenceID := sequenceID, ReqMsg := Some request'\<rparr>
      in case dg (Some request') of
           Inl err \<Rightarrow> (state1, Inl err)
         | Inr d \<Rightarrow>
             (state1\<lparr>CurrentStage := PrePrepared\<rparr>,
              Inr \<lparr> ppViewID = ViewID state1, ppSequenceID = SequenceID request',
                    ppDigest = d, ppRequestMsg = Some request' \<rparr>))"

definition verifyMsg :: "digest_fn \<Rightarrow> State \<Rightarrow> int64 \<Rightarrow> int64 \<Rightarrow> string \<Rightarrow> verify_error option" where
  "verifyMsg dg state viewID sequenceID digestGot =
     (if ViewID state \<noteq> viewID then Some WrongView
      else if StateSequenceID state \<noteq> sequenceID then Some WrongSequence
      else case dg (ReqMsg state) of
             Inl err \<Rightarrow> Some DigestFailed
           | Inr d \<Rightarrow> if digestGot \<noteq> d then Some WrongDigest else None)"

text \<open>
  \<^verbatim>\<open>PrePrepare\<close> stores the request and the sequence number of the message first and
  verifies afterwards. Building the error text reads \<^verbatim>\<open>RequestMsg.Operation\<close>, which
  panics on a nil request.
\<close>

definition PrePrepare ::
  "digest_fn \<Rightarrow> State \<Rightarrow> PrePrepareMsg \<Rightarrow> State \<times> (error + VoteMsg)" where
  "PrePrepare dg state prePrepareMsg =
     (let state1 = state\<lparr>ReqMsg := ppRequestMsg prePrepareMsg,
                         StateSequenceID := ppSequenceID prePrepareMsg\<rparr>
      in case verifyMsg dg state1 (ppViewID prePrepareMsg) (ppSequenceID prePrepareMsg)
                (ppDigest prePrepareMsg) of
           Some err \<Rightarrow>
             (case ppRequestMsg prePrepareMsg of
                None \<Rightarrow> (state1, Inl NilDereference)
              | Some r \<Rightarrow> (state1, Inl (PrePrepareCorrupted err)))
         | None \<Rightarrow>
             (state1\<lparr>CurrentStage := PrePrepared\<rparr>,
              Inr \<lparr> vViewID = ViewID state1, vSequenceID = ppSequenceID prePrepareMsg,
                    vDigest = ppDigest prePrepareMsg, vNodeID = [],
                    vMsgType = PrepareMsg \<rparr>))"

definition prepared :: "State \<Rightarrow> bool" where
  "prepared state =
     (if ReqMsg state = None then False
      else if sint (TotalPrepareMsg state) < 2 * f state then False
      else True)"

definition committed :: "State \<Rightarrow> bool" where
  "committed state =
     (if \<not> prepared state then False
      else if sint (TotalCommitMsg state) < 2 * f state then False
      else True)"

text \<open>
  The node hands the messages to five resolver goroutines, and \<^verbatim>\<open>getState\<close> gives each
  of them the same \<^verbatim>\<open>*State\<close> with no lock held: calls of \<^verbatim>\<open>PrePrepare\<close>, \<^verbatim>\<open>Prepare\<close> and
  \<^verbatim>\<open>Commit\<close> on one instance can overlap. Inside a call only the write to the vote map
  (under its mutex) and the increment of the total (\<^verbatim>\<open>atomic.AddInt32\<close>) are atomic, and
  what a call decides on is the value the increment returned and, read again later,
  the shared total. So \<^verbatim>\<open>Prepare\<close> and \<^verbatim>\<open>Commit\<close> are given by their steps: the write
  to the map, the increment with the value it returns, the decision (the test of the
  returned value and the call of \<^verbatim>\<open>prepared\<close> or \<^verbatim>\<open>committed\<close>), and the assignment
  of the stage with the message that is returned.
\<close>

definition prepareStore :: "State \<Rightarrow> VoteMsg \<Rightarrow> State" where
  "prepareStore state prepareMsg =
     state\<lparr>PrepareMsgs := fmupd (vNodeID prepareMsg) (Some prepareMsg) (PrepareMsgs state)\<rparr>"

definition prepareAdd :: "State \<Rightarrow> State \<times> int32" where
  "prepareAdd state =
     (state\<lparr>TotalPrepareMsg := TotalPrepareMsg state + 1\<rparr>, TotalPrepareMsg state + 1)"

definition prepareDecide :: "State \<Rightarrow> int32 \<Rightarrow> bool" where
  "prepareDecide state newTotalPrepareMsg =
     (if sint newTotalPrepareMsg > 2 * f state then False
      else if prepared state then True
      else False)"

definition prepareFire :: "State \<Rightarrow> VoteMsg \<Rightarrow> State \<times> VoteMsg" where
  "prepareFire state prepareMsg =
     (state\<lparr>CurrentStage := Prepared\<rparr>,
      \<lparr> vViewID = ViewID state, vSequenceID = vSequenceID prepareMsg,
        vDigest = vDigest prepareMsg, vNodeID = [], vMsgType = CommitMsg \<rparr>)"

definition commitStore :: "State \<Rightarrow> VoteMsg \<Rightarrow> State" where
  "commitStore state commitMsg =
     state\<lparr>CommitMsgs := fmupd (vNodeID commitMsg) (Some commitMsg) (CommitMsgs state)\<rparr>"

definition commitAdd :: "State \<Rightarrow> State \<times> int32" where
  "commitAdd state =
     (state\<lparr>TotalCommitMsg := TotalCommitMsg state + 1\<rparr>, TotalCommitMsg state + 1)"

definition commitDecide :: "State \<Rightarrow> int32 \<Rightarrow> bool" where
  "commitDecide state newTotalCommitMsg =
     (if sint newTotalCommitMsg > 2 * f state then False
      else if committed state then True
      else False)"

text \<open>Building the reply reads the stored request, and panics when there is none.\<close>

definition commitFire :: "State \<Rightarrow> State \<times> (error + (ReplyMsg \<times> RequestMsg) option)" where
  "commitFire state =
     (state\<lparr>CurrentStage := Committed\<rparr>,
      case ReqMsg state of
        None \<Rightarrow> Inl NilDereference
      | Some r \<Rightarrow>
          Inr (Some (\<lparr> rViewID = ViewID state, rTimestamp = Timestamp r,
                       rClientID = ClientID r, rNodeID = [], rResult = [] \<rparr>, r)))"

text \<open>
  A call of \<^verbatim>\<open>Prepare\<close> or \<^verbatim>\<open>Commit\<close> that no other call on the instance overlaps: its
  steps one after the other, on the state the step before has left.
\<close>

definition Prepare ::
  "digest_fn \<Rightarrow> State \<Rightarrow> VoteMsg \<Rightarrow> State \<times> (error + VoteMsg option)" where
  "Prepare dg state prepareMsg =
     (case verifyMsg dg state (vViewID prepareMsg) (vSequenceID prepareMsg) (vDigest prepareMsg) of
        Some err \<Rightarrow> (state, Inl (PrepareCorrupted err))
      | None \<Rightarrow>
          (case prepareAdd (prepareStore state prepareMsg) of
             (state1, newTotalPrepareMsg) \<Rightarrow>
               if prepareDecide state1 newTotalPrepareMsg then
                 (case prepareFire state1 prepareMsg of
                    (state2, commitMsg) \<Rightarrow> (state2, Inr (Some commitMsg)))
               else (state1, Inr None)))"

definition Commit ::
  "digest_fn \<Rightarrow> State \<Rightarrow> VoteMsg \<Rightarrow> State \<times> (error + (ReplyMsg \<times> RequestMsg) option)" where
  "Commit dg state commitMsg =
     (if \<not> prepared state then (state, Inl NotPrepared)
      else case verifyMsg dg state (vViewID commitMsg) (vSequenceID commitMsg)
                  (vDigest commitMsg) of
        Some err \<Rightarrow> (state, Inl (CommitCorrupted err))
      | None \<Rightarrow>
          (case commitAdd (commitStore state commitMsg) of
             (state1, newTotalCommitMsg) \<Rightarrow>
               if commitDecide state1 newTotalCommitMsg then commitFire state1
               else (state1, Inr None)))"

section \<open>Calls that overlap\<close>

text \<open>
  What a resolver goroutine has left to do of its call, with the value the increment
  has returned to it. A step of a goroutine is one of the steps above, or one statement
  of \<^verbatim>\<open>PrePrepare\<close> (the two assignments, the verification, the assignment of the
  stage), or the first test of \<^verbatim>\<open>Commit\<close>; it acts on the state as the other goroutines
  have left it. \<^verbatim>\<open>StartConsensus\<close> runs in \<^verbatim>\<open>GetReq\<close> before the state is put into the
  registry, so no other call overlaps it.
\<close>

datatype Returned =
    FromPrePrepare "error + VoteMsg"
  | FromPrepare "error + VoteMsg option"
  | FromCommit "error + (ReplyMsg \<times> RequestMsg) option"

datatype Task =
    PrePrepareStoreReq PrePrepareMsg
  | PrePrepareStoreSeq PrePrepareMsg
  | PrePrepareVerify PrePrepareMsg
  | PrePrepareFire PrePrepareMsg
  | PrepareVerify VoteMsg
  | PrepareStore VoteMsg
  | PrepareAdd VoteMsg
  | PrepareDecide VoteMsg int32
  | PrepareFire VoteMsg
  | CommitGuard VoteMsg
  | CommitVerify VoteMsg
  | CommitStore VoteMsg
  | CommitAdd VoteMsg
  | CommitDecide VoteMsg int32
  | CommitFire VoteMsg
  | Finished Returned

fun step :: "digest_fn \<Rightarrow> State \<Rightarrow> Task \<Rightarrow> State \<times> Task" where
  "step dg state (PrePrepareStoreReq m) =
     (state\<lparr>ReqMsg := ppRequestMsg m\<rparr>, PrePrepareStoreSeq m)"
| "step dg state (PrePrepareStoreSeq m) =
     (state\<lparr>StateSequenceID := ppSequenceID m\<rparr>, PrePrepareVerify m)"
| "step dg state (PrePrepareVerify m) =
     (case verifyMsg dg state (ppViewID m) (ppSequenceID m) (ppDigest m) of
        Some err \<Rightarrow>
          (case ppRequestMsg m of
             None \<Rightarrow> (state, Finished (FromPrePrepare (Inl NilDereference)))
           | Some r \<Rightarrow> (state, Finished (FromPrePrepare (Inl (PrePrepareCorrupted err)))))
      | None \<Rightarrow> (state, PrePrepareFire m))"
| "step dg state (PrePrepareFire m) =
     (state\<lparr>CurrentStage := PrePrepared\<rparr>,
      Finished (FromPrePrepare
        (Inr \<lparr> vViewID = ViewID state, vSequenceID = ppSequenceID m, vDigest = ppDigest m,
               vNodeID = [], vMsgType = PrepareMsg \<rparr>)))"
| "step dg state (PrepareVerify m) =
     (case verifyMsg dg state (vViewID m) (vSequenceID m) (vDigest m) of
        Some err \<Rightarrow> (state, Finished (FromPrepare (Inl (PrepareCorrupted err))))
      | None \<Rightarrow> (state, PrepareStore m))"
| "step dg state (PrepareStore m) = (prepareStore state m, PrepareAdd m)"
| "step dg state (PrepareAdd m) =
     (case prepareAdd state of (state1, newTotalPrepareMsg) \<Rightarrow>
        (state1, PrepareDecide m newTotalPrepareMsg))"
| "step dg state (PrepareDecide m newTotalPrepareMsg) =
     (if prepareDecide state newTotalPrepareMsg then (state, PrepareFire m)
      else (state, Finished (FromPrepare (Inr None))))"
| "step dg state (PrepareFire m) =
     (case prepareFire state m of (state1, commitMsg) \<Rightarrow>
        (state1, Finished (FromPrepare (Inr (Some commitMsg)))))"
| "step dg state (CommitGuard m) =
     (if \<not> prepared state then (state, Finished (FromCommit (Inl NotPrepared)))
      else (state, CommitVerify m))"
| "step dg state (CommitVerify m) =
     (case verifyMsg dg state (vViewID m) (vSequenceID m) (vDigest m) of
        Some err \<Rightarrow> (state, Finished (FromCommit (Inl (CommitCorrupted err))))
      | None \<Rightarrow> (state, CommitStore m))"
| "step dg state (CommitStore m) = (commitStore state m, CommitAdd m)"
| "step dg state (CommitAdd m) =
     (case commitAdd state of (state1, newTotalCommitMsg) \<Rightarrow>
        (state1, CommitDecide m newTotalCommitMsg))"
| "step dg state (CommitDecide m newTotalCommitMsg) =
     (if commitDecide state newTotalCommitMsg then (state, CommitFire m)
      else (state, Finished (FromCommit (Inr None))))"
| "step dg state (CommitFire m) =
     (case commitFire state of (state1, r) \<Rightarrow> (state1, Finished (FromCommit r)))"
| "step dg state (Finished r) = (state, Finished r)"

text \<open>
  The goroutines on one instance: the state they share, what each of them has left to
  do, and a schedule that names the goroutine of each step in turn.
\<close>

fun interleave :: "digest_fn \<Rightarrow> State \<times> Task list \<Rightarrow> nat list \<Rightarrow> State \<times> Task list" where
  "interleave dg (state, tasks) [] = (state, tasks)"
| "interleave dg (state, tasks) (i # schedule) =
     (if i < length tasks then
        (case step dg state (tasks ! i) of
           (state1, task1) \<Rightarrow> interleave dg (state1, tasks[i := task1]) schedule)
      else interleave dg (state, tasks) schedule)"

section \<open>Calls that do not overlap\<close>

text \<open>
  A run of calls on one instance in which each call has returned before the next one
  starts. A call mutates the state whether or not it returns an error, so the run keeps
  the state each call leaves behind.
\<close>

datatype Call =
    CallStartConsensus RequestMsg int64
  | CallPrePrepare PrePrepareMsg
  | CallPrepare VoteMsg
  | CallCommit VoteMsg

fun call :: "digest_fn \<Rightarrow> State \<Rightarrow> Call \<Rightarrow> State" where
  "call dg state (CallStartConsensus request sequenceID) =
     fst (StartConsensus dg state request sequenceID)"
| "call dg state (CallPrePrepare m) = fst (PrePrepare dg state m)"
| "call dg state (CallPrepare m) = fst (Prepare dg state m)"
| "call dg state (CallCommit m) = fst (Commit dg state m)"

fun run :: "digest_fn \<Rightarrow> State \<Rightarrow> Call list \<Rightarrow> State" where
  "run dg state [] = state"
| "run dg state (c # cs) = run dg (call dg state c) cs"

text \<open>Whether a call hands a COMMIT message, or a reply, back to the node.\<close>

fun emitsCommitMsg :: "digest_fn \<Rightarrow> State \<Rightarrow> Call \<Rightarrow> bool" where
  "emitsCommitMsg dg state (CallPrepare m) =
     (case snd (Prepare dg state m) of Inr (Some c) \<Rightarrow> True | _ \<Rightarrow> False)"
| "emitsCommitMsg dg state _ = False"

fun emitsReply :: "digest_fn \<Rightarrow> State \<Rightarrow> Call \<Rightarrow> bool" where
  "emitsReply dg state (CallCommit m) =
     (case snd (Commit dg state m) of Inr (Some p) \<Rightarrow> True | _ \<Rightarrow> False)"
| "emitsReply dg state _ = False"

fun commitMsgsEmitted :: "digest_fn \<Rightarrow> State \<Rightarrow> Call list \<Rightarrow> nat" where
  "commitMsgsEmitted dg state [] = 0"
| "commitMsgsEmitted dg state (c # cs) =
     (if emitsCommitMsg dg state c then 1 else 0) + commitMsgsEmitted dg (call dg state c) cs"

fun repliesEmitted :: "digest_fn \<Rightarrow> State \<Rightarrow> Call list \<Rightarrow> nat" where
  "repliesEmitted dg state [] = 0"
| "repliesEmitted dg state (c # cs) =
     (if emitsReply dg state c then 1 else 0) + repliesEmitted dg (call dg state c) cs"

fun isVoteCall :: "Call \<Rightarrow> bool" where
  "isVoteCall (CallPrepare m) = True"
| "isVoteCall (CallCommit m) = True"
| "isVoteCall _ = False"

fun stageRank :: "Stage \<Rightarrow> nat" where
  "stageRank Idle = 0"
| "stageRank PrePrepared = 1"
| "stageRank Prepared = 2"
| "stageRank Committed = 3"

section \<open>The node\<close>

text \<open>
  Of \<^verbatim>\<open>Node\<close>, the fields that the executor, the checkpoint handler and the router read
  or write. The channels \<^verbatim>\<open>MsgEntrance\<close>, \<^verbatim>\<open>MsgDelivery\<close> and \<^verbatim>\<open>MsgExecution\<close> are the
  arguments and results of the functions below.
\<close>

record NodeInfo =
  NodeID :: string
  Url :: string

record View =
  ID :: int64
  Primary :: NodeInfo

record MsgPair =
  replyMsg :: ReplyMsg
  committedMsg :: RequestMsg

text \<open>What the executor hands to \<^verbatim>\<open>MsgOutbound\<close>: the path and the message (the code sends
  its JSON bytes).\<close>

datatype Payload = ReplyPayload ReplyMsg | CheckPointPayload CheckPointMsg

record MsgOut =
  Path :: string
  Msg :: Payload

record Node =
  MyInfo :: NodeInfo
  NodeTable :: "NodeInfo list"
  NodeView :: View
  States :: "(int64, State) fmap"
  CommittedMsgs :: "RequestMsg list"
  MsgOutbound :: "MsgOut list"
  StableCheckPoint :: int64
  CheckPointSendPoint :: int64
  CheckPointMsgsLog :: "(int64, (string, CheckPointMsg) fmap) fmap"

text \<open>\<^verbatim>\<open>Broadcast\<close> sends on \<^verbatim>\<open>MsgOutbound\<close>; the field keeps what has been sent, in order.\<close>

definition Broadcast :: "Node \<Rightarrow> Payload \<Rightarrow> string \<Rightarrow> Node" where
  "Broadcast node msg path =
     node\<lparr>MsgOutbound := MsgOutbound node @ [\<lparr> Path = Url (MyInfo node) @ path, Msg = msg \<rparr>]\<rparr>"

definition Reply :: "Node \<Rightarrow> ReplyMsg \<Rightarrow> Node" where
  "Reply node msg = Broadcast node (ReplyPayload msg) ''/reply''"

text \<open>
  \<^verbatim>\<open>createState\<close> of the node makes the instance for a request. It writes the call as
  \<^verbatim>\<open>CreateState(node.View.ID, node.MyInfo.NodeID, len(node.NodeTable))\<close>; the identifier,
  a string, can only be the string parameter of \<^verbatim>\<open>CreateState\<close> and the length its
  number of nodes, so the pseudo-message is seeded under the node's own identifier.
\<close>

definition createState :: "Node \<Rightarrow> State" where
  "createState node =
     CreateState (ID (NodeView node)) (int (length (NodeTable node))) (NodeID (MyInfo node))"

definition periodCheckPoint :: int64 where
  "periodCheckPoint = 5"

definition isMyNodePrimary :: "Node \<Rightarrow> bool" where
  "isMyNodePrimary node = (NodeID (MyInfo node) = NodeID (Primary (NodeView node)))"

text \<open>
  What arrives on \<^verbatim>\<open>MsgEntrance\<close> is an \<^verbatim>\<open>interface{}\<close>; the type switch of \<^verbatim>\<open>routeMsg\<close>
  has one case per message type and no default. The router never looks into a
  view-change or a new-view message, so their types are parameters.
\<close>

datatype ('vc, 'nv) MsgEntered =
    MRequest RequestMsg
  | MPrePrepare PrePrepareMsg
  | MVote VoteMsg
  | MReply ReplyMsg
  | MCheckPoint CheckPointMsg
  | MViewChange 'vc
  | MNewView 'nv
  | MOther

text \<open>\<^verbatim>\<open>routeMsg\<close> returns what it sends to \<^verbatim>\<open>MsgDelivery\<close>, if anything.\<close>

fun routeMsg :: "Node \<Rightarrow> ('vc, 'nv) MsgEntered \<Rightarrow> ('vc, 'nv) MsgEntered option" where
  "routeMsg node (MRequest msg) = Some (MRequest msg)"
| "routeMsg node (MPrePrepare msg) =
     (if \<not> isMyNodePrimary node then Some (MPrePrepare msg) else None)"
| "routeMsg node (MVote msg) =
     (if NodeID (MyInfo node) \<noteq> vNodeID msg then Some (MVote msg) else None)"
| "routeMsg node (MReply msg) = Some (MReply msg)"
| "routeMsg node (MCheckPoint msg) = Some (MCheckPoint msg)"
| "routeMsg node (MViewChange msg) = Some (MViewChange msg)"
| "routeMsg node (MNewView msg) = Some (MNewView msg)"
| "routeMsg node MOther = None"

subsection \<open>Checkpoints\<close>

text \<open>\<^verbatim>\<open>len\<close> of the inner map of the checkpoint log; a missing inner map is nil, of length 0.\<close>

definition lenCheckPointMsgs :: "Node \<Rightarrow> int64 \<Rightarrow> int" where
  "lenCheckPointMsgs node sequenceID =
     (case fmlookup (CheckPointMsgsLog node) sequenceID of
        None \<Rightarrow> 0
      | Some m \<Rightarrow> int (fcard (fmdom m)))"

definition ownCheckPointMsg :: "Node \<Rightarrow> int64 \<Rightarrow> CheckPointMsg option" where
  "ownCheckPointMsg node sequenceID =
     (case fmlookup (CheckPointMsgsLog node) sequenceID of
        None \<Rightarrow> None
      | Some m \<Rightarrow> fmlookup m (NodeID (MyInfo node)))"

definition Checkpointchk :: "Node \<Rightarrow> int64 \<Rightarrow> bool" where
  "Checkpointchk node sequenceID =
     (case fmlookup (States node) sequenceID of
        None \<Rightarrow> False
      | Some state \<Rightarrow>
          if lenCheckPointMsgs node sequenceID \<ge> 2 * f state + 1
             \<and> ownCheckPointMsg node sequenceID \<noteq> None
          then True else False)"

text \<open>
  \<^verbatim>\<open>CheckPoint\<close> stores the message (\<open>saveCheckPointMsg\<close>, making the inner map when it
  is missing), and when the check passes on a state that is still pending it marks the state, deletes every key below the new stable checkpoint from
  the log and from the registry (\<^verbatim>\<open><\<close> on \<^verbatim>\<open>int64\<close> is the signed order), and moves
  the stable checkpoint. The history it prints at the end changes nothing.
\<close>

definition saveCheckPointMsg :: "Node \<Rightarrow> CheckPointMsg \<Rightarrow> Node" where
  "saveCheckPointMsg node msg =
     (let inner = (case fmlookup (CheckPointMsgsLog node) (cSequenceID msg) of
                     None \<Rightarrow> fmempty | Some m \<Rightarrow> m)
      in node\<lparr>CheckPointMsgsLog :=
                 fmupd (cSequenceID msg) (fmupd (cNodeID msg) msg inner)
                   (CheckPointMsgsLog node)\<rparr>)"

definition CheckPoint :: "Node \<Rightarrow> CheckPointMsg \<Rightarrow> Node" where
  "CheckPoint node msg =
     (let node1 = saveCheckPointMsg node msg
      in case fmlookup (States node1) (cSequenceID msg) of
           None \<Rightarrow> node1
         | Some state \<Rightarrow>
             if Checkpointchk node1 (cSequenceID msg) \<and> CheckPointState state = 0 then
               (let states1 = fmupd (cSequenceID msg) (state\<lparr>CheckPointState := 1\<rparr>)
                                (States node1);
                    fStableCheckPoint = StableCheckPoint node1 + periodCheckPoint
                in node1\<lparr>CheckPointMsgsLog :=
                            fmfilter (\<lambda>v. \<not> word_sless v fStableCheckPoint)
                              (CheckPointMsgsLog node1),
                          States :=
                            fmfilter (\<lambda>v. \<not> word_sless v fStableCheckPoint) states1,
                          StableCheckPoint := fStableCheckPoint\<rparr>)
             else node1)"

text \<open>The condition under which \<^verbatim>\<open>CheckPoint\<close> takes its first branch, read on the node
  before the call.\<close>

definition checkPointPasses :: "Node \<Rightarrow> CheckPointMsg \<Rightarrow> bool" where
  "checkPointPasses node msg =
     (\<exists>state. fmlookup (States node) (cSequenceID msg) = Some state
        \<and> CheckPointState state = 0
        \<and> 2 * f state + 1 \<le> lenCheckPointMsgs (saveCheckPointMsg node msg) (cSequenceID msg)
        \<and> ownCheckPointMsg (saveCheckPointMsg node msg) (cSequenceID msg) \<noteq> None)"

text \<open>
  \<^verbatim>\<open>consensus.Digest\<close> is not in the files at hand; it is the parameter \<open>Dg\<close> of the
  functions that call it.
\<close>

type_synonym Digest_fn = "RequestMsg \<Rightarrow> error + string"

definition getCheckPointMsg ::
  "Digest_fn \<Rightarrow> int64 \<Rightarrow> string \<Rightarrow> RequestMsg \<Rightarrow> error + CheckPointMsg" where
  "getCheckPointMsg Dg sequenceID nodeID reqMsgs =
     (case Dg reqMsgs of
        Inl err \<Rightarrow> Inl err
      | Inr d \<Rightarrow> Inr \<lparr> cSequenceID = sequenceID, cDigest = d, cNodeID = nodeID \<rparr>)"

subsection \<open>The executor\<close>

text \<open>
  \<^verbatim>\<open>executeMsg\<close> owns the map \<^verbatim>\<open>pairs\<close>. For each pair from the channel it stores the
  pair under the sequence number of its request and then runs the inner loop: while
  the pair after the last logged request is there, append its request to
  \<^verbatim>\<open>CommittedMsgs\<close>, send the reply with the result \<^verbatim>\<open>Executed\<close>, send and handle a
  checkpoint when the send point is reached, and delete the pair. The inner loop ends
  because every round deletes a key of the finite map. The error of
  \<^verbatim>\<open>getCheckPointMsg\<close> is dropped and its nil message handed to \<^verbatim>\<open>CheckPoint\<close>, which
  panics on it. The private queue \<^verbatim>\<open>committedMsgs\<close> is only printed.
\<close>

definition lastSequenceID :: "Node \<Rightarrow> int64" where
  "lastSequenceID node =
     (if length (CommittedMsgs node) > 0 then SequenceID (last (CommittedMsgs node)) else 0)"

function executeLoop ::
  "Digest_fn \<Rightarrow> Node \<Rightarrow> (int64, MsgPair) fmap \<Rightarrow> error + Node \<times> (int64, MsgPair) fmap" where
  "executeLoop Dg node pairs =
     (case fmlookup pairs (lastSequenceID node + 1) of
        None \<Rightarrow> Inr (node, pairs)
      | Some p \<Rightarrow>
          (let node1 = node\<lparr>CommittedMsgs := CommittedMsgs node @ [committedMsg p]\<rparr>;
               node2 = Reply node1 ((replyMsg p)\<lparr>rResult := ''Executed''\<rparr>);
               nCheckPoint = CheckPointSendPoint node2 + periodCheckPoint
           in if SequenceID (last (CommittedMsgs node2)) = nCheckPoint then
                (case getCheckPointMsg Dg (SequenceID (last (CommittedMsgs node2)))
                        (NodeID (MyInfo node2)) (last (CommittedMsgs node2)) of
                   Inl err \<Rightarrow> Inl NilDereference
                 | Inr checkPointMsg \<Rightarrow>
                     executeLoop Dg
                       (CheckPoint
                          (Broadcast (node2\<lparr>CheckPointSendPoint := nCheckPoint\<rparr>)
                             (CheckPointPayload checkPointMsg) ''/checkpoint'')
                          checkPointMsg)
                       (fmdrop (lastSequenceID node + 1) pairs))
              else executeLoop Dg node2 (fmdrop (lastSequenceID node + 1) pairs)))"
  by pat_completeness auto

termination executeLoop
proof -
  have less: "fcard (fmdom m |-| {|k|}) < fcard (fmdom m)"
    if "fmlookup m k = Some v" for m :: "(int64, MsgPair) fmap" and k v
  proof -
    from that have "k |\<in>| fmdom m" by (simp add: fmdomI)
    then have "Suc (fcard (fmdom m |-| {|k|})) = fcard (fmdom m)"
      by (rule fcard_Suc_fminus1)
    then show ?thesis by linarith
  qed
  show ?thesis
    by (relation "measure (\<lambda>(Dg, node, pairs). fcard (fmdom pairs))") (auto intro: less)
qed

declare executeLoop.simps [simp del]

text \<open>One round of the outer loop, for the pair \<open>msgPair\<close> read from \<^verbatim>\<open>MsgExecution\<close>.\<close>

definition executeRound ::
  "Digest_fn \<Rightarrow> Node \<Rightarrow> (int64, MsgPair) fmap \<Rightarrow> MsgPair
     \<Rightarrow> error + Node \<times> (int64, MsgPair) fmap" where
  "executeRound Dg node pairs msgPair =
     executeLoop Dg node (fmupd (SequenceID (committedMsg msgPair)) msgPair pairs)"

text \<open>The outer loop on the pairs that the channel delivers, until a panic if there is one.\<close>

fun executeMsg ::
  "Digest_fn \<Rightarrow> Node \<Rightarrow> (int64, MsgPair) fmap \<Rightarrow> MsgPair list
     \<Rightarrow> error + Node \<times> (int64, MsgPair) fmap" where
  "executeMsg Dg node pairs [] = Inr (node, pairs)"
| "executeMsg Dg node pairs (msgPair # rest) =
     (case executeRound Dg node pairs msgPair of
        Inl err \<Rightarrow> Inl err
      | Inr (node', pairs') \<Rightarrow> executeMsg Dg node' pairs' rest)"

text \<open>The log invariant of the executor: the request at index \<open>i\<close> has sequence number \<open>i + 1\<close>.\<close>

definition orderedLog :: "RequestMsg list \<Rightarrow> bool" where
  "orderedLog log = (\<forall>i < length log. SequenceID (log ! i) = of_nat (i + 1))"

text \<open>Every pair of the map sits under the sequence number of its request, as
  \<^verbatim>\<open>pairs[msgPair.committedMsg.SequenceID] = msgPair\<close> puts it.\<close>

definition pairsKeyed :: "(int64, MsgPair) fmap \<Rightarrow> bool" where
  "pairsKeyed pairs = (\<forall>k p. fmlookup pairs k = Some p \<longrightarrow> SequenceID (committedMsg p) = k)"

section \<open>A cluster of four nodes, for the examples\<close>

text \<open>
  A stand-in for the digest: the operation and the data of the request, and \<^verbatim>\<open>null\<close> for
  a nil request. View 0, primary \<^verbatim>\<open>R0\<close>, one client request with sequence number 1.
\<close>

definition dg0 :: digest_fn where
  "dg0 r = Inr (case r of None \<Rightarrow> ''null'' | Some q \<Rightarrow> Operation q @ ''/'' @ Data q)"

definition Dg0 :: Digest_fn where
  "Dg0 q = Inr (Operation q @ ''/'' @ Data q)"

definition req0 :: RequestMsg where
  "req0 = \<lparr> Timestamp = 1, ClientID = ''C'', Operation = ''x'', Data = [], SequenceID = 1 \<rparr>"

definition req1 :: RequestMsg where
  "req1 = \<lparr> Timestamp = 1, ClientID = ''C'', Operation = ''y'', Data = [], SequenceID = 1 \<rparr>"

definition prePrepare0 :: PrePrepareMsg where
  "prePrepare0 = \<lparr> ppViewID = 0, ppSequenceID = 1, ppDigest = ''x/'', ppRequestMsg = Some req0 \<rparr>"

definition vote0 :: "string \<Rightarrow> MsgType \<Rightarrow> VoteMsg" where
  "vote0 nodeID t = \<lparr> vViewID = 0, vSequenceID = 1, vDigest = ''x/'', vNodeID = nodeID,
                      vMsgType = t \<rparr>"

text \<open>The instance of a backup after the pre-prepare of the primary, with \<open>n\<close> nodes.\<close>

definition prePreparedState :: "int \<Rightarrow> State" where
  "prePreparedState n = fst (PrePrepare dg0 (CreateState 0 n ''R0'') prePrepare0)"

text \<open>That instance after the PREPARE vote of \<^verbatim>\<open>R1\<close>, which prepares it.\<close>

definition preparedState :: State where
  "preparedState = fst (Prepare dg0 (prePreparedState 4) (vote0 ''R1'' PrepareMsg))"

text \<open>That instance after the PREPARE vote and the COMMIT vote of \<^verbatim>\<open>R1\<close>.\<close>

definition votedState :: State where
  "votedState = run dg0 (prePreparedState 4)
     [CallPrepare (vote0 ''R1'' PrepareMsg), CallCommit (vote0 ''R1'' CommitMsg)]"


definition prePrepare9 :: PrePrepareMsg where
  "prePrepare9 = \<lparr> ppViewID = 1, ppSequenceID = 9, ppDigest = ''y/'', ppRequestMsg = Some req1 \<rparr>"

text \<open>
  The node \<^verbatim>\<open>R3\<close> of the four, as \<^verbatim>\<open>NewNode\<close> makes it for view 0; the pair that
  \<^verbatim>\<open>GetCommit\<close> sends to the executor for sequence number \<open>n\<close>.
\<close>

definition nodeInfo :: "string \<Rightarrow> NodeInfo" where
  "nodeInfo n = \<lparr> NodeID = n, Url = [] \<rparr>"

definition node0 :: Node where
  "node0 = \<lparr> MyInfo = nodeInfo ''R3'',
             NodeTable = [nodeInfo ''R0'', nodeInfo ''R1'', nodeInfo ''R2'', nodeInfo ''R3''],
             NodeView = \<lparr> ID = 0, Primary = nodeInfo ''R0'' \<rparr>,
             States = fmempty, CommittedMsgs = [], MsgOutbound = [], StableCheckPoint = 0,
             CheckPointSendPoint = 0, CheckPointMsgsLog = fmempty \<rparr>"

definition replyOf :: "MsgOut \<Rightarrow> ReplyMsg" where
  "replyOf out = (case Msg out of ReplyPayload r \<Rightarrow> r
                  | CheckPointPayload c \<Rightarrow> \<lparr> rViewID = 0, rTimestamp = 0, rClientID = [],
                      rNodeID = [], rResult = [] \<rparr>)"

definition msgPair0 :: "int64 \<Rightarrow> MsgPair" where
  "msgPair0 n =
     \<lparr> replyMsg = \<lparr> rViewID = 0, rTimestamp = 1, rClientID = ''C'', rNodeID = ''R3'',
                    rResult = [] \<rparr>,
       committedMsg = req0\<lparr>SequenceID := n\<rparr> \<rparr>"

text \<open>
  The node when it holds the instance of sequence number \<open>n\<close>, still pending, and the
  CHECKPOINT messages of \<^verbatim>\<open>R1\<close> and \<^verbatim>\<open>R2\<close> for \<open>n\<close> with the digests \<open>d1\<close> and \<open>d2\<close>.
\<close>

definition checkPoint0 :: "int64 \<Rightarrow> string \<Rightarrow> string \<Rightarrow> CheckPointMsg" where
  "checkPoint0 n nodeID d = \<lparr> cSequenceID = n, cDigest = d, cNodeID = nodeID \<rparr>"

definition nodeAt :: "int64 \<Rightarrow> string \<Rightarrow> string \<Rightarrow> Node" where
  "nodeAt n d1 d2 =
     node0\<lparr> States := fmupd n ((prePreparedState 4)\<lparr>StateSequenceID := n\<rparr>) fmempty,
            CheckPointMsgsLog :=
              fmupd n (fmupd ''R2'' (checkPoint0 n ''R2'' d2)
                        (fmupd ''R1'' (checkPoint0 n ''R1'' d1) fmempty)) fmempty \<rparr>"

section \<open>Facts about the operations of an instance\<close>

text \<open>The calls that nothing overlaps, written out.\<close>

lemma Prepare_alone:
  "Prepare dg state prepareMsg =
     (case verifyMsg dg state (vViewID prepareMsg) (vSequenceID prepareMsg) (vDigest prepareMsg) of
        Some err \<Rightarrow> (state, Inl (PrepareCorrupted err))
      | None \<Rightarrow>
          (let newTotalPrepareMsg = TotalPrepareMsg state + 1;
               state1 = state\<lparr>PrepareMsgs := fmupd (vNodeID prepareMsg) (Some prepareMsg)
                                                (PrepareMsgs state),
                               TotalPrepareMsg := newTotalPrepareMsg\<rparr>
           in if sint newTotalPrepareMsg > 2 * f state1 then (state1, Inr None)
              else if prepared state1 then
                (state1\<lparr>CurrentStage := Prepared\<rparr>,
                 Inr (Some \<lparr> vViewID = ViewID state1, vSequenceID = vSequenceID prepareMsg,
                             vDigest = vDigest prepareMsg, vNodeID = [],
                             vMsgType = CommitMsg \<rparr>))
              else (state1, Inr None)))"
  by (simp add: Prepare_def prepareStore_def prepareAdd_def prepareDecide_def prepareFire_def
      Let_def split: option.splits)

lemma Commit_alone:
  "Commit dg state commitMsg =
     (if \<not> prepared state then (state, Inl NotPrepared)
      else case verifyMsg dg state (vViewID commitMsg) (vSequenceID commitMsg)
                  (vDigest commitMsg) of
        Some err \<Rightarrow> (state, Inl (CommitCorrupted err))
      | None \<Rightarrow>
          (let newTotalCommitMsg = TotalCommitMsg state + 1;
               state1 = state\<lparr>CommitMsgs := fmupd (vNodeID commitMsg) (Some commitMsg)
                                               (CommitMsgs state),
                               TotalCommitMsg := newTotalCommitMsg\<rparr>
           in if sint newTotalCommitMsg > 2 * f state1 then (state1, Inr None)
              else if committed state1 then
                (case ReqMsg state1 of
                   None \<Rightarrow> (state1\<lparr>CurrentStage := Committed\<rparr>, Inl NilDereference)
                 | Some r \<Rightarrow>
                     (state1\<lparr>CurrentStage := Committed\<rparr>,
                      Inr (Some (\<lparr> rViewID = ViewID state1, rTimestamp = Timestamp r,
                                   rClientID = ClientID r, rNodeID = [], rResult = [] \<rparr>, r))))
              else (state1, Inr None)))"
  by (simp add: Commit_def commitStore_def commitAdd_def commitDecide_def commitFire_def
      Let_def split: option.splits)

text \<open>The steps of one goroutine, when no other goroutine takes a step in between, are
  the call that nothing overlaps.\<close>

lemma interleave_Prepare_alone:
  "interleave dg (state, [PrepareVerify m]) [0, 0, 0, 0, 0]
     = (fst (Prepare dg state m), [Finished (FromPrepare (snd (Prepare dg state m)))])"
  by (simp add: Prepare_def prepareDecide_def split: option.splits prod.splits)

lemma interleave_Commit_alone:
  "interleave dg (state, [CommitGuard m]) [0, 0, 0, 0, 0, 0]
     = (fst (Commit dg state m), [Finished (FromCommit (snd (Commit dg state m)))])"
  by (simp add: Commit_def commitStore_def commitAdd_def commitDecide_def prepared_def
      committed_def split: option.splits prod.splits)

lemma interleave_PrePrepare_alone:
  "interleave dg (state, [PrePrepareStoreReq m]) [0, 0, 0, 0]
     = (fst (PrePrepare dg state m), [Finished (FromPrePrepare (snd (PrePrepare dg state m)))])"
  by (simp add: PrePrepare_def verifyMsg_def Let_def split: option.splits sum.splits)

lemma sint_succ32:
  "sint (w :: int32) + 1 < 2 ^ 31 \<Longrightarrow> sint (w + 1) = sint w + 1"
  using sint_ge [of w]
  by (simp add: sint_word_add signed_take_bit_int_eq_self)

lemma call_f [simp]: "f (call dg s c) = f s"
  by (cases c)
     (auto simp: StartConsensus_def PrePrepare_def Prepare_alone Commit_alone Let_def
           split: sum.splits option.splits)

lemma call_TotalPrepareMsg:
  "TotalPrepareMsg (call dg s c) =
     (if (\<exists>m. c = CallPrepare m \<and>
            verifyMsg dg s (vViewID m) (vSequenceID m) (vDigest m) = None)
      then TotalPrepareMsg s + 1 else TotalPrepareMsg s)"
  by (cases c)
     (auto simp: StartConsensus_def PrePrepare_def Prepare_alone Commit_alone Let_def
           split: sum.splits option.splits)

lemma call_TotalCommitMsg:
  "TotalCommitMsg (call dg s c) =
     (if (\<exists>m. c = CallCommit m \<and> prepared s \<and>
            verifyMsg dg s (vViewID m) (vSequenceID m) (vDigest m) = None)
      then TotalCommitMsg s + 1 else TotalCommitMsg s)"
  by (cases c)
     (auto simp: StartConsensus_def PrePrepare_def Prepare_alone Commit_alone Let_def
           split: sum.splits option.splits)

lemma emitsCommitMsg_total:
  assumes "emitsCommitMsg dg s c"
  shows "sint (TotalPrepareMsg s + 1) = 2 * f s \<and>
         TotalPrepareMsg (call dg s c) = TotalPrepareMsg s + 1"
  using assms
  by (cases c)
     (auto simp: Prepare_alone Let_def prepared_def split: sum.splits option.splits if_splits)

lemma emitsReply_total:
  assumes "emitsReply dg s c"
  shows "sint (TotalCommitMsg s + 1) = 2 * f s \<and>
         TotalCommitMsg (call dg s c) = TotalCommitMsg s + 1"
  using assms
  by (cases c)
     (auto simp: Commit_alone Let_def committed_def prepared_def
           split: sum.splits option.splits if_splits)

lemma sint_TotalPrepareMsg_call:
  assumes "sint (TotalPrepareMsg s) + 1 < 2 ^ 31"
  shows "sint (TotalPrepareMsg s) \<le> sint (TotalPrepareMsg (call dg s c)) \<and>
         sint (TotalPrepareMsg (call dg s c)) \<le> sint (TotalPrepareMsg s) + 1"
  using assms by (simp add: call_TotalPrepareMsg sint_succ32)

lemma sint_TotalCommitMsg_call:
  assumes "sint (TotalCommitMsg s) + 1 < 2 ^ 31"
  shows "sint (TotalCommitMsg s) \<le> sint (TotalCommitMsg (call dg s c)) \<and>
         sint (TotalCommitMsg (call dg s c)) \<le> sint (TotalCommitMsg s) + 1"
  using assms by (simp add: call_TotalCommitMsg sint_succ32)

lemma no_commitMsg_after_quorum:
  assumes "2 * f s \<le> sint (TotalPrepareMsg s)"
      and "sint (TotalPrepareMsg s) + int (length cs) < 2 ^ 31"
  shows "commitMsgsEmitted dg s cs = 0"
  using assms
proof (induction cs arbitrary: s)
  case Nil
  then show ?case by simp
next
  case (Cons c cs)
  from Cons.prems have small: "sint (TotalPrepareMsg s) + 1 < 2 ^ 31" by simp
  have quiet: "\<not> emitsCommitMsg dg s c"
  proof
    assume "emitsCommitMsg dg s c"
    then have "sint (TotalPrepareMsg s + 1) = 2 * f s" by (simp add: emitsCommitMsg_total)
    with small Cons.prems(1) show False by (simp add: sint_succ32)
  qed
  from sint_TotalPrepareMsg_call [OF small, of dg c] Cons.prems
  have "2 * f (call dg s c) \<le> sint (TotalPrepareMsg (call dg s c))"
    and "sint (TotalPrepareMsg (call dg s c)) + int (length cs) < 2 ^ 31"
    by auto
  then have "commitMsgsEmitted dg (call dg s c) cs = 0" by (rule Cons.IH)
  with quiet show ?case by simp
qed

lemma commitMsgsEmitted_le_1:
  assumes "sint (TotalPrepareMsg s) + int (length cs) < 2 ^ 31"
  shows "commitMsgsEmitted dg s cs \<le> 1"
  using assms
proof (induction cs arbitrary: s)
  case Nil
  then show ?case by simp
next
  case (Cons c cs)
  from Cons.prems have small: "sint (TotalPrepareMsg s) + 1 < 2 ^ 31" by simp
  show ?case
  proof (cases "emitsCommitMsg dg s c")
    case True
    then have "sint (TotalPrepareMsg s + 1) = 2 * f s"
      and "TotalPrepareMsg (call dg s c) = TotalPrepareMsg s + 1"
      by (simp_all add: emitsCommitMsg_total)
    with small Cons.prems
    have "2 * f (call dg s c) \<le> sint (TotalPrepareMsg (call dg s c))"
      and "sint (TotalPrepareMsg (call dg s c)) + int (length cs) < 2 ^ 31"
      by (simp_all add: sint_succ32)
    then have "commitMsgsEmitted dg (call dg s c) cs = 0" by (rule no_commitMsg_after_quorum)
    then show ?thesis by simp
  next
    case False
    from sint_TotalPrepareMsg_call [OF small, of dg c] Cons.prems
    have "sint (TotalPrepareMsg (call dg s c)) + int (length cs) < 2 ^ 31" by auto
    then have "commitMsgsEmitted dg (call dg s c) cs \<le> 1" by (rule Cons.IH)
    with False show ?thesis by simp
  qed
qed

lemma no_reply_after_quorum:
  assumes "2 * f s \<le> sint (TotalCommitMsg s)"
      and "sint (TotalCommitMsg s) + int (length cs) < 2 ^ 31"
  shows "repliesEmitted dg s cs = 0"
  using assms
proof (induction cs arbitrary: s)
  case Nil
  then show ?case by simp
next
  case (Cons c cs)
  from Cons.prems have small: "sint (TotalCommitMsg s) + 1 < 2 ^ 31" by simp
  have quiet: "\<not> emitsReply dg s c"
  proof
    assume "emitsReply dg s c"
    then have "sint (TotalCommitMsg s + 1) = 2 * f s" by (simp add: emitsReply_total)
    with small Cons.prems(1) show False by (simp add: sint_succ32)
  qed
  from sint_TotalCommitMsg_call [OF small, of dg c] Cons.prems
  have "2 * f (call dg s c) \<le> sint (TotalCommitMsg (call dg s c))"
    and "sint (TotalCommitMsg (call dg s c)) + int (length cs) < 2 ^ 31"
    by auto
  then have "repliesEmitted dg (call dg s c) cs = 0" by (rule Cons.IH)
  with quiet show ?case by simp
qed

lemma repliesEmitted_le_1:
  assumes "sint (TotalCommitMsg s) + int (length cs) < 2 ^ 31"
  shows "repliesEmitted dg s cs \<le> 1"
  using assms
proof (induction cs arbitrary: s)
  case Nil
  then show ?case by simp
next
  case (Cons c cs)
  from Cons.prems have small: "sint (TotalCommitMsg s) + 1 < 2 ^ 31" by simp
  show ?case
  proof (cases "emitsReply dg s c")
    case True
    then have "sint (TotalCommitMsg s + 1) = 2 * f s"
      and "TotalCommitMsg (call dg s c) = TotalCommitMsg s + 1"
      by (simp_all add: emitsReply_total)
    with small Cons.prems
    have "2 * f (call dg s c) \<le> sint (TotalCommitMsg (call dg s c))"
      and "sint (TotalCommitMsg (call dg s c)) + int (length cs) < 2 ^ 31"
      by (simp_all add: sint_succ32)
    then have "repliesEmitted dg (call dg s c) cs = 0" by (rule no_reply_after_quorum)
    then show ?thesis by simp
  next
    case False
    from sint_TotalCommitMsg_call [OF small, of dg c] Cons.prems
    have "sint (TotalCommitMsg (call dg s c)) + int (length cs) < 2 ^ 31" by auto
    then have "repliesEmitted dg (call dg s c) cs \<le> 1" by (rule Cons.IH)
    with False show ?thesis by simp
  qed
qed

lemma run_append: "run dg s (as @ bs) = run dg (run dg s as) bs"
  by (induction as arbitrary: s) simp_all

lemma commitMsgsEmitted_append:
  "commitMsgsEmitted dg s (as @ bs) =
     commitMsgsEmitted dg s as + commitMsgsEmitted dg (run dg s as) bs"
  by (induction as arbitrary: s) simp_all

text \<open>What a PREPARE vote that passes the verification does.\<close>

lemma Prepare_verified:
  assumes "verifyMsg dg s (vViewID m) (vSequenceID m) (vDigest m) = None"
  shows "emitsCommitMsg dg s (CallPrepare m) =
           (ReqMsg s \<noteq> None \<and> sint (TotalPrepareMsg s + 1) = 2 * f s)"
    and "ViewID (call dg s (CallPrepare m)) = ViewID s"
    and "StateSequenceID (call dg s (CallPrepare m)) = StateSequenceID s"
    and "ReqMsg (call dg s (CallPrepare m)) = ReqMsg s"
    and "TotalPrepareMsg (call dg s (CallPrepare m)) = TotalPrepareMsg s + 1"
    and "f (call dg s (CallPrepare m)) = f s"
  using assms by (simp_all add: Prepare_alone Let_def prepared_def)

lemma verifyMsg_same:
  assumes "ViewID s' = ViewID s" and "StateSequenceID s' = StateSequenceID s"
      and "ReqMsg s' = ReqMsg s" and "verifyMsg dg s v n d = r"
  shows "verifyMsg dg s' v n d = r"
proof -
  from assms(1-3) have "verifyMsg dg s' v n d = verifyMsg dg s v n d"
    by (simp add: verifyMsg_def)
  with assms(4) show ?thesis by simp
qed

lemma run_replicate_Prepare:
  assumes "verifyMsg dg s (vViewID m) (vSequenceID m) (vDigest m) = None"
  shows "ViewID (run dg s (replicate k (CallPrepare m))) = ViewID s \<and>
         StateSequenceID (run dg s (replicate k (CallPrepare m))) = StateSequenceID s \<and>
         ReqMsg (run dg s (replicate k (CallPrepare m))) = ReqMsg s \<and>
         f (run dg s (replicate k (CallPrepare m))) = f s \<and>
         TotalPrepareMsg (run dg s (replicate k (CallPrepare m))) = TotalPrepareMsg s + of_nat k"
  using assms
proof (induction k arbitrary: s)
  case 0
  then show ?case by simp
next
  case (Suc k)
  let ?s = "call dg s (CallPrepare m)"
  note step = Prepare_verified(2-6) [OF Suc.prems]
  have "verifyMsg dg ?s (vViewID m) (vSequenceID m) (vDigest m) = None"
    by (rule verifyMsg_same [OF step(1-3) Suc.prems])
  from Suc.IH [OF this] step show ?case by simp
qed

lemma wrapped_total_emits_again:
  assumes ok: "verifyMsg dg s (vViewID m) (vSequenceID m) (vDigest m) = None"
      and req: "ReqMsg s \<noteq> None"
      and tip: "sint (TotalPrepareMsg s + 1) = 2 * f s"
      and wrap: "of_nat (Suc k) = (0 :: int32)"
  shows "1 < commitMsgsEmitted dg s (replicate (Suc (Suc k)) (CallPrepare m))"
proof -
  let ?c = "CallPrepare m"
  let ?s = "run dg s (replicate (Suc k) ?c)"
  have first: "emitsCommitMsg dg s ?c"
    using Prepare_verified(1) [OF ok] req tip by simp
  from run_replicate_Prepare [OF ok, of "Suc k"] wrap
  have same: "ViewID ?s = ViewID s" "StateSequenceID ?s = StateSequenceID s"
    "ReqMsg ?s = ReqMsg s" "f ?s = f s" "TotalPrepareMsg ?s = TotalPrepareMsg s"
    by simp_all
  have "verifyMsg dg ?s (vViewID m) (vSequenceID m) (vDigest m) = None"
    by (rule verifyMsg_same [OF same(1-3) ok])
  from Prepare_verified(1) [OF this] same req tip
  have again: "emitsCommitMsg dg ?s ?c" by simp
  have "replicate (Suc (Suc k)) ?c = replicate (Suc k) ?c @ [?c]"
    using replicate_append_same [of "Suc k" ?c] by simp
  then have "commitMsgsEmitted dg s (replicate (Suc (Suc k)) ?c) =
               commitMsgsEmitted dg s (replicate (Suc k) ?c) + commitMsgsEmitted dg ?s [?c]"
    by (simp only: commitMsgsEmitted_append)
  moreover have "1 \<le> commitMsgsEmitted dg s (replicate (Suc k) ?c)"
    using first by simp
  moreover have "commitMsgsEmitted dg ?s [?c] = 1"
    using again by simp
  ultimately show ?thesis by linarith
qed

lemma prePreparedState_4:
  "prePreparedState 4 =
     \<lparr> ViewID = 0, ReqMsg = Some req0, PrepareMsgs = fmupd ''R0'' None fmempty,
       CommitMsgs = fmempty, TotalPrepareMsg = 1, TotalCommitMsg = 0, StateSequenceID = 1,
       CurrentStage = PrePrepared, f = 1, CheckPointState = 0 \<rparr>"
  by (simp add: prePreparedState_def PrePrepare_def CreateState_def prePrepare0_def
      verifyMsg_def dg0_def req0_def go_div_def)

lemma verify_vote0:
  "verifyMsg dg0 (prePreparedState 4) (vViewID (vote0 n t)) (vSequenceID (vote0 n t))
     (vDigest (vote0 n t)) = None"
  by (simp add: prePreparedState_4 verifyMsg_def vote0_def dg0_def req0_def)

lemma preparedState_eq:
  "preparedState =
     \<lparr> ViewID = 0, ReqMsg = Some req0,
       PrepareMsgs = fmupd ''R1'' (Some (vote0 ''R1'' PrepareMsg)) (fmupd ''R0'' None fmempty),
       CommitMsgs = fmempty,
       TotalPrepareMsg = 2, TotalCommitMsg = 0, StateSequenceID = 1,
       CurrentStage = Prepared, f = 1, CheckPointState = 0 \<rparr>"
  by (simp add: preparedState_def prePreparedState_4 Prepare_alone verifyMsg_def
      prepared_def vote0_def dg0_def req0_def Let_def)

lemma votedState_eq:
  "votedState =
     \<lparr> ViewID = 0, ReqMsg = Some req0,
       PrepareMsgs = fmupd ''R1'' (Some (vote0 ''R1'' PrepareMsg)) (fmupd ''R0'' None fmempty),
       CommitMsgs = fmupd ''R1'' (Some (vote0 ''R1'' CommitMsg)) fmempty,
       TotalPrepareMsg = 2, TotalCommitMsg = 1, StateSequenceID = 1,
       CurrentStage = Prepared, f = 1, CheckPointState = 0 \<rparr>"
  by (simp add: votedState_def prePreparedState_4 Prepare_alone Commit_alone verifyMsg_def
      prepared_def committed_def vote0_def dg0_def req0_def Let_def)

text \<open>\<^verbatim>\<open>Prepare\<close> and \<^verbatim>\<open>Commit\<close> verify before they store: a failing call changes nothing.\<close>

lemma Prepare_error_unchanged: "snd (Prepare dg s m) = Inl e \<Longrightarrow> fst (Prepare dg s m) = s"
  by (auto simp: Prepare_alone Let_def split: option.splits if_splits)

lemma Commit_error_unchanged: "snd (Commit dg s m) = Inl e \<Longrightarrow> fst (Commit dg s m) = s"
  by (auto simp: Commit_alone Let_def committed_def prepared_def split: option.splits if_splits)

text \<open>The stage under a vote: one step, with the fact that makes the next step safe.\<close>

lemma vote_call_stage:
  assumes vote: "isVoteCall c"
      and inv: "CurrentStage s = Committed \<longrightarrow> 2 * f s \<le> sint (TotalPrepareMsg s)"
      and small: "sint (TotalPrepareMsg s) + 1 < 2 ^ 31"
  shows "stageRank (CurrentStage s) \<le> stageRank (CurrentStage (call dg s c))"
    and "CurrentStage (call dg s c) = Committed \<longrightarrow>
           2 * f (call dg s c) \<le> sint (TotalPrepareMsg (call dg s c))"
proof -
  show "stageRank (CurrentStage s) \<le> stageRank (CurrentStage (call dg s c))"
  proof (cases c)
    case (CallPrepare m)
    show ?thesis
    proof (cases "emitsCommitMsg dg s c")
      case True
      then have "sint (TotalPrepareMsg s + 1) = 2 * f s" by (simp add: emitsCommitMsg_total)
      with small have "sint (TotalPrepareMsg s) < 2 * f s" by (simp add: sint_succ32)
      with inv have "CurrentStage s \<noteq> Committed" by auto
      moreover from True CallPrepare have "CurrentStage (call dg s c) = Prepared"
        by (auto simp: Prepare_alone Let_def split: option.splits if_splits)
      ultimately show ?thesis by (cases "CurrentStage s") simp_all
    next
      case False
      with CallPrepare have "CurrentStage (call dg s c) = CurrentStage s"
        by (auto simp: Prepare_alone Let_def split: option.splits if_splits)
      then show ?thesis by simp
    qed
  next
    case (CallCommit m)
    then have "CurrentStage (call dg s c) = Committed
               \<or> CurrentStage (call dg s c) = CurrentStage s"
      by (auto simp: Commit_alone Let_def split: option.splits if_splits)
    then show ?thesis by (cases "CurrentStage s") auto
  qed (use vote in simp_all)
  show "CurrentStage (call dg s c) = Committed \<longrightarrow>
          2 * f (call dg s c) \<le> sint (TotalPrepareMsg (call dg s c))"
  proof (cases c)
    case (CallPrepare m)
    then have "CurrentStage (call dg s c) = Committed \<longrightarrow> CurrentStage s = Committed"
      by (auto simp: Prepare_alone Let_def split: option.splits if_splits)
    with inv sint_TotalPrepareMsg_call [OF small, of dg c] show ?thesis by auto
  next
    case (CallCommit m)
    then have "CurrentStage (call dg s c) = Committed \<longrightarrow>
                 CurrentStage s = Committed \<or> prepared s"
      by (auto simp: Commit_alone Let_def split: option.splits if_splits)
    moreover have "prepared s \<Longrightarrow> 2 * f s \<le> sint (TotalPrepareMsg s)"
      by (auto simp: prepared_def split: if_splits)
    ultimately show ?thesis
      using inv sint_TotalPrepareMsg_call [OF small, of dg c] by auto
  qed (use vote in simp_all)
qed

text \<open>A COMMITTED instance has its \<open>2f\<close> counted PREPARE votes: true of a fresh instance and
  kept by every call, as long as the total does not wrap.\<close>

lemma call_keeps_quorum:
  assumes inv: "CurrentStage s = Committed \<longrightarrow> 2 * f s \<le> sint (TotalPrepareMsg s)"
      and small: "sint (TotalPrepareMsg s) + 1 < 2 ^ 31"
  shows "CurrentStage (call dg s c) = Committed \<longrightarrow>
           2 * f (call dg s c) \<le> sint (TotalPrepareMsg (call dg s c))"
proof (cases "isVoteCall c")
  case True
  from vote_call_stage(2) [OF True inv small] show ?thesis .
next
  case False
  then have "CurrentStage (call dg s c) = Committed \<longrightarrow> CurrentStage s = Committed"
    by (cases c)
       (auto simp: StartConsensus_def PrePrepare_def Let_def split: sum.splits option.splits)
  with inv sint_TotalPrepareMsg_call [OF small, of dg c] show ?thesis by auto
qed

lemma run_keeps_quorum:
  assumes "CurrentStage s = Committed \<longrightarrow> 2 * f s \<le> sint (TotalPrepareMsg s)"
      and "sint (TotalPrepareMsg s) + int (length cs) < 2 ^ 31"
  shows "CurrentStage (run dg s cs) = Committed \<longrightarrow>
           2 * f (run dg s cs) \<le> sint (TotalPrepareMsg (run dg s cs))"
  using assms
proof (induction cs arbitrary: s)
  case Nil
  then show ?case by simp
next
  case (Cons c cs)
  from Cons.prems have small: "sint (TotalPrepareMsg s) + 1 < 2 ^ 31" by simp
  from sint_TotalPrepareMsg_call [OF small, of dg c] Cons.prems(2)
  have "sint (TotalPrepareMsg (call dg s c)) + int (length cs) < 2 ^ 31" by auto
  from Cons.IH [OF call_keeps_quorum [OF Cons.prems(1) small] this] show ?case by simp
qed

lemma CreateState_not_committed: "CurrentStage (CreateState viewID totNodes primaryID) = Idle"
  by (simp add: CreateState_def)

text \<open>
  The totals are \<^verbatim>\<open>int32\<close> and \<^verbatim>\<open>atomic.AddInt32\<close> wraps around. Even when no calls
  overlap, a vote that keeps arriving brings the total back to \<open>2f\<close>: with four nodes
  the first PREPARE vote returns a COMMIT message, and call number \<open>2 ^ 32 + 1\<close> returns
  a second one.
\<close>

lemma second_commitMsg_after_wrap:
  "1 < commitMsgsEmitted dg0 (prePreparedState 4)
         (replicate (2 ^ 32 + 1) (CallPrepare (vote0 ''R1'' PrepareMsg)))"
proof -
  have "of_nat (Suc (2 ^ 32 - 1)) = (0 :: int32)" by simp
  from wrapped_total_emits_again [OF verify_vote0 _ _ this, of "''R1''" PrepareMsg]
  have "1 < commitMsgsEmitted dg0 (prePreparedState 4)
         (replicate (Suc (Suc (2 ^ 32 - 1))) (CallPrepare (vote0 ''R1'' PrepareMsg)))"
    by (simp add: prePreparedState_4)
  moreover have "Suc (Suc (2 ^ 32 - 1)) = (2 ^ 32 + 1 :: nat)" by simp
  ultimately show ?thesis by (simp only:)
qed

text \<open>
  Calls that overlap can lower the stage. A \<^verbatim>\<open>Prepare\<close> call increments the total to
  \<open>2f\<close> and is held up; two \<^verbatim>\<open>Commit\<close> calls find the instance prepared and the second
  sets the stage to COMMITTED; then the \<^verbatim>\<open>Prepare\<close> call goes on and sets it to PREPARED.
\<close>

lemma overlapping_Prepare_lowers_stage:
  "CurrentStage (fst (interleave dg0
      (prePreparedState 4,
       [PrepareVerify (vote0 ''R1'' PrepareMsg), CommitGuard (vote0 ''R1'' CommitMsg),
        CommitGuard (vote0 ''R2'' CommitMsg)])
      [0, 0, 0, 1, 1, 1, 1, 1, 2, 2, 2, 2, 2, 2])) = Committed
   \<and> CurrentStage (fst (interleave dg0
      (prePreparedState 4,
       [PrepareVerify (vote0 ''R1'' PrepareMsg), CommitGuard (vote0 ''R1'' CommitMsg),
        CommitGuard (vote0 ''R2'' CommitMsg)])
      [0, 0, 0, 1, 1, 1, 1, 1, 2, 2, 2, 2, 2, 2, 0, 0])) = Prepared"
  by (simp add: prePreparedState_4 prepareStore_def prepareAdd_def prepareDecide_def
      prepareFire_def commitStore_def commitAdd_def commitDecide_def commitFire_def
      committed_def prepared_def verifyMsg_def vote0_def dg0_def req0_def)


section \<open>Claims about the instance\<close>

text \<open>
  C1, which fails as stated. With four nodes (\<open>f = 1\<close>) an instance that has the
  pre-prepare, one PREPARE vote and one COMMIT vote is committed by its second COMMIT
  vote: it then holds two COMMIT votes, of the nodes \<^verbatim>\<open>R1\<close> and \<^verbatim>\<open>R2\<close>, fewer than
  \<open>2f + 1 = 3\<close>.
\<close>

theorem committed_with_2f_commits:
  "CurrentStage (fst (Commit dg0 votedState (vote0 ''R2'' CommitMsg))) = Committed
   \<and> f (fst (Commit dg0 votedState (vote0 ''R2'' CommitMsg))) = 1
   \<and> TotalCommitMsg (fst (Commit dg0 votedState (vote0 ''R2'' CommitMsg))) = 2
   \<and> fmdom (CommitMsgs (fst (Commit dg0 votedState (vote0 ''R2'' CommitMsg))))
       = {|''R2'', ''R1''|}"
  by (simp add: votedState_eq Commit_alone verifyMsg_def prepared_def
      committed_def vote0_def dg0_def req0_def Let_def)

text \<open>
  C1, amended. In every interleaving of the calls on an instance, the stage becomes
  COMMITTED, and a reply paired with the stored request is returned, only by the last
  step of a \<^verbatim>\<open>Commit\<close> call, and a call gets to that step only when its test has passed:
  the value its increment returned is at most \<open>2f\<close>, and at the test the instance is
  prepared and the counter \<^verbatim>\<open>TotalCommitMsg\<close> is at least \<open>2f\<close>. When no other call
  overlaps the call, it is the call whose vote brings \<^verbatim>\<open>TotalCommitMsg\<close> to exactly
  \<open>2f\<close>, and the vote is stored under its node.
\<close>

theorem Commit_fires_at_2f:
  "(CurrentStage (fst (step dg s t)) = Committed \<and> CurrentStage s \<noteq> Committed
      \<longrightarrow> (\<exists>m. t = CommitFire m))
   \<and> (snd (step dg s t) = Finished (FromCommit (Inr (Some p)))
      \<longrightarrow> (\<exists>m. t = CommitFire m) \<or> t = Finished (FromCommit (Inr (Some p))))
   \<and> (snd (step dg s t) = CommitFire m
      \<longrightarrow> (\<exists>n. t = CommitDecide m n \<and> sint n \<le> 2 * f s) \<and> fst (step dg s t) = s
          \<and> prepared s \<and> 2 * f s \<le> sint (TotalCommitMsg s))
   \<and> (Commit dg s1 m1 = (s', r)
        \<and> (CurrentStage s' \<noteq> CurrentStage s1 \<or> (\<exists>q. r = Inr (Some q)))
      \<longrightarrow> prepared s1 \<and> TotalCommitMsg s' = TotalCommitMsg s1 + 1
          \<and> sint (TotalCommitMsg s') = 2 * f s1 \<and> CurrentStage s' = Committed
          \<and> (\<exists>reply req. r = Inr (Some (reply, req)) \<and> ReqMsg s1 = Some req)
          \<and> fmlookup (CommitMsgs s') (vNodeID m1) = Some (Some m1))"
proof -
  have a: "CurrentStage (fst (step dg s t)) = Committed \<and> CurrentStage s \<noteq> Committed
      \<longrightarrow> (\<exists>m. t = CommitFire m)"
    by (cases t)
       (auto simp: prepareStore_def prepareAdd_def prepareFire_def commitStore_def
          commitAdd_def split: option.splits if_splits)
  have b: "snd (step dg s t) = Finished (FromCommit (Inr (Some p)))
      \<longrightarrow> (\<exists>m. t = CommitFire m) \<or> t = Finished (FromCommit (Inr (Some p)))"
    by (cases t)
       (auto simp: prepareAdd_def prepareFire_def commitAdd_def
          split: option.splits if_splits)
  have c: "snd (step dg s t) = CommitFire m
      \<longrightarrow> (\<exists>n. t = CommitDecide m n \<and> sint n \<le> 2 * f s) \<and> fst (step dg s t) = s
          \<and> prepared s \<and> 2 * f s \<le> sint (TotalCommitMsg s)"
    by (cases t)
       (auto simp: prepareAdd_def prepareFire_def commitAdd_def commitFire_def
          commitDecide_def committed_def split: option.splits if_splits)
  have d: "prepared s1 \<and> TotalCommitMsg s' = TotalCommitMsg s1 + 1
          \<and> sint (TotalCommitMsg s') = 2 * f s1 \<and> CurrentStage s' = Committed
          \<and> (\<exists>reply req. r = Inr (Some (reply, req)) \<and> ReqMsg s1 = Some req)
          \<and> fmlookup (CommitMsgs s') (vNodeID m1) = Some (Some m1)"
    if call: "Commit dg s1 m1 = (s', r)"
      and fired: "CurrentStage s' \<noteq> CurrentStage s1 \<or> (\<exists>q. r = Inr (Some q))"
  proof -
    have p: "prepared s1"
      using call fired by (auto simp: Commit_alone split: if_splits)
    then obtain req where req: "ReqMsg s1 = Some req"
      by (auto simp: prepared_def split: if_splits)
    have v: "verifyMsg dg s1 (vViewID m1) (vSequenceID m1) (vDigest m1) = None"
      using call fired p
      by (cases "verifyMsg dg s1 (vViewID m1) (vSequenceID m1) (vDigest m1)")
         (auto simp: Commit_alone)
    show ?thesis
      using call fired p v req
      by (auto simp: Commit_alone Let_def committed_def prepared_def split: if_splits)
  qed
  from a b c d show ?thesis by blast
qed

theorem Commit_fires_at_2f_witness:
  "prepared votedState
   \<and> TotalCommitMsg (fst (Commit dg0 votedState (vote0 ''R2'' CommitMsg)))
       = TotalCommitMsg votedState + 1
   \<and> sint (TotalCommitMsg (fst (Commit dg0 votedState (vote0 ''R2'' CommitMsg))))
       = 2 * f votedState
   \<and> CurrentStage (fst (Commit dg0 votedState (vote0 ''R2'' CommitMsg))) = Committed
   \<and> (\<exists>reply req. snd (Commit dg0 votedState (vote0 ''R2'' CommitMsg))
          = Inr (Some (reply, req)) \<and> ReqMsg votedState = Some req)
   \<and> fmlookup (CommitMsgs (fst (Commit dg0 votedState (vote0 ''R2'' CommitMsg))))
       (vNodeID (vote0 ''R2'' CommitMsg)) = Some (Some (vote0 ''R2'' CommitMsg))
   \<and> (\<exists>n. CommitDecide (vote0 ''R2'' CommitMsg) 2 = CommitDecide (vote0 ''R2'' CommitMsg) n
         \<and> sint n \<le> 2 * f (fst (commitAdd votedState)))
   \<and> 2 * f (fst (commitAdd votedState)) \<le> sint (TotalCommitMsg (fst (commitAdd votedState)))"
proof -
  let ?m = "vote0 ''R2'' CommitMsg"
  let ?s = "fst (commitAdd votedState)"
  have fired: "Commit dg0 votedState ?m
        = (fst (Commit dg0 votedState ?m), snd (Commit dg0 votedState ?m))
      \<and> (CurrentStage (fst (Commit dg0 votedState ?m)) \<noteq> CurrentStage votedState
          \<or> (\<exists>q. snd (Commit dg0 votedState ?m) = Inr (Some q)))"
    by (simp add: votedState_eq Commit_alone verifyMsg_def prepared_def committed_def
        vote0_def dg0_def req0_def Let_def)
  have passed: "snd (step dg0 ?s (CommitDecide ?m 2)) = CommitFire ?m"
    by (simp add: votedState_eq commitAdd_def commitDecide_def committed_def prepared_def)
  from Commit_fires_at_2f [of dg0 ?s "CommitDecide ?m 2" _ ?m votedState ?m
      "fst (Commit dg0 votedState ?m)" "snd (Commit dg0 votedState ?m)"]
    fired passed
  show ?thesis by blast
qed




text \<open>
  C8, at an input where the code breaks it. The instance holds request \<^verbatim>\<open>x\<close> under
  sequence number 1 in view 0. A pre-prepare of view 1 for sequence number 9 fails with
  the view mismatch, and yet the instance now holds the request and the sequence
  number of the rejected message.
\<close>

theorem failed_PrePrepare_stores:
  "PrePrepare dg0 (prePreparedState 4) prePrepare9
     = ((prePreparedState 4)\<lparr>ReqMsg := Some req1, StateSequenceID := 9\<rparr>,
        Inl (PrePrepareCorrupted WrongView))
   \<and> ReqMsg (prePreparedState 4) = Some req0
   \<and> StateSequenceID (prePreparedState 4) = 1
   \<and> req1 \<noteq> req0"
  by (simp add: prePreparedState_4 PrePrepare_def verifyMsg_def prePrepare9_def
      req0_def req1_def)

text \<open>
  C2, at an input where the code breaks it. With seven nodes (\<open>f = 2\<close>) the total of the
  instance is 1 after the pre-prepare. The PREPARE vote of \<^verbatim>\<open>R1\<close> makes it 2. The same
  vote a second time replaces the entry of \<^verbatim>\<open>R1\<close> in the map, which keeps the keys
  \<^verbatim>\<open>R0\<close> and \<^verbatim>\<open>R1\<close>, and yet makes the total 3. The same vote a third time makes the
  total \<open>4 = 2f\<close>: the instance is PREPARED and the COMMIT message is returned, on the
  votes of one backup. Each call has returned before the next one starts.
\<close>

theorem duplicate_vote_counted:
  "TotalPrepareMsg (run dg0 (prePreparedState 7) [CallPrepare (vote0 ''R1'' PrepareMsg)]) = 2
   \<and> TotalPrepareMsg (run dg0 (prePreparedState 7)
        [CallPrepare (vote0 ''R1'' PrepareMsg), CallPrepare (vote0 ''R1'' PrepareMsg)]) = 3
   \<and> fmdom (PrepareMsgs (run dg0 (prePreparedState 7)
        [CallPrepare (vote0 ''R1'' PrepareMsg), CallPrepare (vote0 ''R1'' PrepareMsg)]))
      = {|''R1'', ''R0''|}
   \<and> CurrentStage (run dg0 (prePreparedState 7)
        [CallPrepare (vote0 ''R1'' PrepareMsg), CallPrepare (vote0 ''R1'' PrepareMsg)])
      = PrePrepared
   \<and> CurrentStage (fst (Prepare dg0 (run dg0 (prePreparedState 7)
        [CallPrepare (vote0 ''R1'' PrepareMsg), CallPrepare (vote0 ''R1'' PrepareMsg)])
        (vote0 ''R1'' PrepareMsg))) = Prepared
   \<and> snd (Prepare dg0 (run dg0 (prePreparedState 7)
        [CallPrepare (vote0 ''R1'' PrepareMsg), CallPrepare (vote0 ''R1'' PrepareMsg)])
        (vote0 ''R1'' PrepareMsg))
      = Inr (Some \<lparr> vViewID = 0, vSequenceID = 1, vDigest = ''x/'', vNodeID = [],
                    vMsgType = CommitMsg \<rparr>)"
  by (simp add: prePreparedState_def PrePrepare_def CreateState_def prePrepare0_def
      Prepare_alone verifyMsg_def prepared_def vote0_def dg0_def req0_def go_div_def Let_def)

text \<open>
  C4, which fails as stated. The instance is PREPARED after the vote of \<^verbatim>\<open>R1\<close>, and
  COMMITTED after the COMMIT vote of \<^verbatim>\<open>R2\<close>; a \<^verbatim>\<open>PrePrepare\<close> call with the pre-prepare
  it has accepted before puts either back to PRE_PREPARED.
\<close>

theorem PrePrepare_lowers_stage:
  "CurrentStage votedState = Prepared
   \<and> CurrentStage (fst (PrePrepare dg0 votedState prePrepare0)) = PrePrepared
   \<and> CurrentStage (fst (Commit dg0 votedState (vote0 ''R2'' CommitMsg))) = Committed
   \<and> CurrentStage (fst (PrePrepare dg0
        (fst (Commit dg0 votedState (vote0 ''R2'' CommitMsg))) prePrepare0)) = PrePrepared"
  by (simp add: votedState_eq PrePrepare_def Commit_alone verifyMsg_def prepared_def
      committed_def prePrepare0_def vote0_def dg0_def req0_def Let_def)

text \<open>
  C4, amended. \<^verbatim>\<open>StartConsensus\<close> and \<^verbatim>\<open>PrePrepare\<close> set the stage to PRE_PREPARED
  whenever they succeed, whatever it was. When the calls on an instance do not overlap,
  each having returned before the next one starts, \<^verbatim>\<open>Prepare\<close> and \<^verbatim>\<open>Commit\<close> never
  lower the stage: from an instance that is not COMMITTED with fewer than \<open>2f\<close> counted
  PREPARE votes (no instance made by \<^verbatim>\<open>CreateState\<close> gets there before a total wraps),
  in every such run of \<^verbatim>\<open>Prepare\<close> and \<^verbatim>\<open>Commit\<close> calls that does not take the
  \<^verbatim>\<open>int32\<close> total past its largest value, the stage at the end is the stage at the
  start or a later one.
\<close>

theorem votes_never_lower_stage:
  assumes "list_all isVoteCall cs"
      and "CurrentStage s = Committed \<longrightarrow> 2 * f s \<le> sint (TotalPrepareMsg s)"
      and "sint (TotalPrepareMsg s) + int (length cs) < 2 ^ 31"
  shows "stageRank (CurrentStage s) \<le> stageRank (CurrentStage (run dg s cs))
         \<and> (\<forall>v. snd (PrePrepare dg s1 m) = Inr v \<longrightarrow>
               CurrentStage (fst (PrePrepare dg s1 m)) = PrePrepared)
         \<and> (\<forall>p. snd (StartConsensus dg s1 request n) = Inr p \<longrightarrow>
               CurrentStage (fst (StartConsensus dg s1 request n)) = PrePrepared)"
proof -
  have "stageRank (CurrentStage s) \<le> stageRank (CurrentStage (run dg s cs))"
    using assms
  proof (induction cs arbitrary: s)
    case Nil
    then show ?case by simp
  next
    case (Cons c cs)
    from Cons.prems have vote: "isVoteCall c" and rest: "list_all isVoteCall cs"
      and small: "sint (TotalPrepareMsg s) + 1 < 2 ^ 31"
      by simp_all
    note step = vote_call_stage [OF vote Cons.prems(2) small, of dg]
    from sint_TotalPrepareMsg_call [OF small, of dg c] Cons.prems(3)
    have "sint (TotalPrepareMsg (call dg s c)) + int (length cs) < 2 ^ 31" by auto
    from Cons.IH [OF rest step(2) this] step(1) show ?case by simp
  qed
  moreover have "\<forall>v. snd (PrePrepare dg s1 m) = Inr v \<longrightarrow>
      CurrentStage (fst (PrePrepare dg s1 m)) = PrePrepared"
    by (auto simp: PrePrepare_def Let_def split: option.splits)
  moreover have "\<forall>p. snd (StartConsensus dg s1 request n) = Inr p \<longrightarrow>
      CurrentStage (fst (StartConsensus dg s1 request n)) = PrePrepared"
    by (auto simp: StartConsensus_def Let_def split: sum.splits)
  ultimately show ?thesis by blast
qed

theorem votes_never_lower_stage_witness:
  "stageRank (CurrentStage (prePreparedState 4))
     \<le> stageRank (CurrentStage (run dg0 (prePreparedState 4)
          [CallPrepare (vote0 ''R1'' PrepareMsg), CallCommit (vote0 ''R1'' CommitMsg)]))
   \<and> CurrentStage (fst (PrePrepare dg0 votedState prePrepare0)) = PrePrepared
   \<and> CurrentStage (fst (StartConsensus dg0 votedState req0 1)) = PrePrepared"
proof -
  have a: "list_all isVoteCall
      [CallPrepare (vote0 ''R1'' PrepareMsg), CallCommit (vote0 ''R1'' CommitMsg)]"
    by simp
  have b: "CurrentStage (prePreparedState 4) = Committed \<longrightarrow>
      2 * f (prePreparedState 4) \<le> sint (TotalPrepareMsg (prePreparedState 4))"
    by (simp add: prePreparedState_4)
  have c: "sint (TotalPrepareMsg (prePreparedState 4))
      + int (length [CallPrepare (vote0 ''R1'' PrepareMsg),
                     CallCommit (vote0 ''R1'' CommitMsg)]) < 2 ^ 31"
    by (simp add: prePreparedState_4)
  have d: "\<exists>v. snd (PrePrepare dg0 votedState prePrepare0) = Inr v"
    by (simp add: votedState_eq PrePrepare_def verifyMsg_def prePrepare0_def dg0_def
        req0_def)
  have e: "\<exists>p. snd (StartConsensus dg0 votedState req0 1) = Inr p"
    by (simp add: StartConsensus_def dg0_def Let_def)
  from votes_never_lower_stage [OF a b c, of dg0 votedState prePrepare0 req0 1] d e
  show ?thesis by blast
qed

text \<open>
  C10, at an input where the code breaks it. The instance of four nodes (\<open>f = 1\<close>) is
  prepared and has no COMMIT vote. Two resolver goroutines take the COMMIT votes of
  \<^verbatim>\<open>R1\<close> and \<^verbatim>\<open>R2\<close>. The first increments the total to 1, the second to 2, and only then
  do they go on: for both the returned value is not above \<open>2f = 2\<close>, both read the
  shared total 2 in \<^verbatim>\<open>committed\<close>, and both return a reply. The first of them does so
  with the incremented total 1.
\<close>

theorem two_replies_when_commits_overlap:
  "interleave dg0
      (preparedState, [CommitGuard (vote0 ''R1'' CommitMsg), CommitGuard (vote0 ''R2'' CommitMsg)])
      [0, 0, 0, 0, 1, 1, 1, 1]
     = (preparedState
          \<lparr>CommitMsgs := fmupd ''R2'' (Some (vote0 ''R2'' CommitMsg))
                           (fmupd ''R1'' (Some (vote0 ''R1'' CommitMsg)) fmempty),
           TotalCommitMsg := 2\<rparr>,
        [CommitDecide (vote0 ''R1'' CommitMsg) 1, CommitDecide (vote0 ''R2'' CommitMsg) 2])
   \<and> snd (interleave dg0
      (preparedState, [CommitGuard (vote0 ''R1'' CommitMsg), CommitGuard (vote0 ''R2'' CommitMsg)])
      [0, 0, 0, 0, 1, 1, 1, 1, 0, 0, 1, 1])
     = [Finished (FromCommit (Inr (Some
          (\<lparr> rViewID = 0, rTimestamp = 1, rClientID = ''C'', rNodeID = [], rResult = [] \<rparr>,
           req0)))),
        Finished (FromCommit (Inr (Some
          (\<lparr> rViewID = 0, rTimestamp = 1, rClientID = ''C'', rNodeID = [], rResult = [] \<rparr>,
           req0))))]"
  by (simp add: preparedState_eq commitStore_def commitAdd_def commitDecide_def commitFire_def
      committed_def prepared_def verifyMsg_def vote0_def dg0_def req0_def)

section \<open>Facts about the checkpoint handler and the executor\<close>

lemma States_saveCheckPointMsg [simp]: "States (saveCheckPointMsg node msg) = States node"
  by (simp add: saveCheckPointMsg_def Let_def)

lemma StableCheckPoint_saveCheckPointMsg [simp]:
  "StableCheckPoint (saveCheckPointMsg node msg) = StableCheckPoint node"
  by (simp add: saveCheckPointMsg_def Let_def)

lemma CommittedMsgs_saveCheckPointMsg [simp]:
  "CommittedMsgs (saveCheckPointMsg node msg) = CommittedMsgs node"
  by (simp add: saveCheckPointMsg_def Let_def)

lemma CommittedMsgs_CheckPoint [simp]: "CommittedMsgs (CheckPoint node msg) = CommittedMsgs node"
  by (simp add: CheckPoint_def Let_def split: option.splits)

lemma CommittedMsgs_Broadcast [simp]:
  "CommittedMsgs (Broadcast node msg path) = CommittedMsgs node"
  by (simp add: Broadcast_def)

lemma CommittedMsgs_Reply [simp]: "CommittedMsgs (Reply node msg) = CommittedMsgs node"
  by (simp add: Reply_def)

lemma period_not_zero: "x + periodCheckPoint \<noteq> (x :: int64)"
  by (simp add: periodCheckPoint_def)

lemma CheckPoint_fails:
  assumes "\<not> checkPointPasses node msg"
  shows "CheckPoint node msg = saveCheckPointMsg node msg"
  using assms
  by (auto simp: CheckPoint_def checkPointPasses_def Checkpointchk_def Let_def
           split: option.splits)

lemma CheckPoint_passes:
  assumes "checkPointPasses node msg"
  shows "\<exists>state. fmlookup (States node) (cSequenceID msg) = Some state
     \<and> StableCheckPoint (CheckPoint node msg) = StableCheckPoint node + periodCheckPoint
     \<and> States (CheckPoint node msg) =
         fmfilter (\<lambda>v. \<not> word_sless v (StableCheckPoint node + periodCheckPoint))
           (fmupd (cSequenceID msg) (state\<lparr>CheckPointState := 1\<rparr>) (States node))
     \<and> CheckPointMsgsLog (CheckPoint node msg) =
         fmfilter (\<lambda>v. \<not> word_sless v (StableCheckPoint node + periodCheckPoint))
           (CheckPointMsgsLog (saveCheckPointMsg node msg))"
  using assms
  by (auto simp: CheckPoint_def checkPointPasses_def Checkpointchk_def Let_def
           split: option.splits)

lemma StableCheckPoint_moves_iff:
  "(StableCheckPoint (CheckPoint node msg) \<noteq> StableCheckPoint node)
     = checkPointPasses node msg"
proof (cases "checkPointPasses node msg")
  case True
  from CheckPoint_passes [OF this]
  have "StableCheckPoint (CheckPoint node msg) = StableCheckPoint node + periodCheckPoint"
    by blast
  with True period_not_zero [of "StableCheckPoint node"] show ?thesis by metis
next
  case False
  then show ?thesis by (simp add: CheckPoint_fails)
qed

section \<open>Claims about the router and the checkpoints\<close>

text \<open>
  C9, which fails as stated. Node \<^verbatim>\<open>R3\<close> drops its own COMMIT vote just as it drops its
  own PREPARE vote: the router looks at the node of a vote, not at its kind.
\<close>

theorem own_commit_vote_dropped:
  "routeMsg node0 (MVote (vote0 ''R3'' CommitMsg) :: (unit, unit) MsgEntered) = None
   \<and> routeMsg node0 (MVote (vote0 ''R3'' PrepareMsg) :: (unit, unit) MsgEntered) = None"
  by (simp add: node0_def nodeInfo_def vote0_def)

text \<open>
  C9, amended. The router hands the replica's own checkpoint messages back to it, where
  they are counted, and hands on every request, reply, view-change and new-view
  message, and a pre-prepare unless the replica is the primary. It hands a vote on
  exactly when the vote carries the identifier of another node: it suppresses the
  replica's own COMMIT votes as well as its own PREPARE votes, which are already seeded
  (the instance that the node creates holds the pseudo-PREPARE under the node's own
  identifier, counted once).
\<close>

theorem routeMsg_own_votes:
  "routeMsg node (MVote m)
     = (if vNodeID m = NodeID (MyInfo node) then None else Some (MVote m))
   \<and> routeMsg node (MCheckPoint c) = Some (MCheckPoint c)
   \<and> routeMsg node (MRequest q) = Some (MRequest q)
   \<and> routeMsg node (MReply r) = Some (MReply r)
   \<and> routeMsg node (MViewChange vc) = Some (MViewChange vc)
   \<and> routeMsg node (MNewView nv) = Some (MNewView nv)
   \<and> routeMsg node (MPrePrepare pp)
     = (if isMyNodePrimary node then None else Some (MPrePrepare pp))
   \<and> PrepareMsgs (createState node) = fmupd (NodeID (MyInfo node)) None fmempty
   \<and> TotalPrepareMsg (createState node) = 1"
  by (auto simp: createState_def CreateState_def)

theorem routeMsg_own_votes_witness:
  "routeMsg node0 (MVote (vote0 ''R1'' CommitMsg) :: (unit, unit) MsgEntered)
     = Some (MVote (vote0 ''R1'' CommitMsg))
   \<and> routeMsg node0 (MVote (vote0 ''R3'' CommitMsg) :: (unit, unit) MsgEntered) = None
   \<and> routeMsg node0 (MVote (vote0 ''R3'' PrepareMsg) :: (unit, unit) MsgEntered) = None
   \<and> routeMsg node0 (MCheckPoint (checkPoint0 5 ''R3'' ''x/'') :: (unit, unit) MsgEntered)
     = Some (MCheckPoint (checkPoint0 5 ''R3'' ''x/''))
   \<and> PrepareMsgs (createState node0) = fmupd ''R3'' None fmempty"
proof -
  have other: "vNodeID (vote0 ''R1'' CommitMsg) \<noteq> NodeID (MyInfo node0)"
    and own: "vNodeID (vote0 ''R3'' CommitMsg) = NodeID (MyInfo node0)"
      "vNodeID (vote0 ''R3'' PrepareMsg) = NodeID (MyInfo node0)"
    and me: "NodeID (MyInfo node0) = ''R3''"
    by (simp_all add: node0_def nodeInfo_def vote0_def)
  note r1 = routeMsg_own_votes [of node0 "vote0 ''R1'' CommitMsg" "checkPoint0 5 ''R3'' ''x/''"
      req0 "replyMsg (msgPair0 1)" "()" "()" prePrepare0]
  note r2 = routeMsg_own_votes [of node0 "vote0 ''R3'' CommitMsg" "checkPoint0 5 ''R3'' ''x/''"
      req0 "replyMsg (msgPair0 1)" "()" "()" prePrepare0]
  note r3 = routeMsg_own_votes [of node0 "vote0 ''R3'' PrepareMsg" "checkPoint0 5 ''R3'' ''x/''"
      req0 "replyMsg (msgPair0 1)" "()" "()" prePrepare0]
  from r1 other have "routeMsg node0 (MVote (vote0 ''R1'' CommitMsg) :: (unit, unit) MsgEntered)
     = Some (MVote (vote0 ''R1'' CommitMsg))"
    by auto
  moreover from r2 own(1)
  have "routeMsg node0 (MVote (vote0 ''R3'' CommitMsg) :: (unit, unit) MsgEntered) = None"
    by auto
  moreover from r3 own(2)
  have "routeMsg node0 (MVote (vote0 ''R3'' PrepareMsg) :: (unit, unit) MsgEntered) = None"
    by auto
  moreover from r1
  have "routeMsg node0 (MCheckPoint (checkPoint0 5 ''R3'' ''x/'') :: (unit, unit) MsgEntered)
     = Some (MCheckPoint (checkPoint0 5 ''R3'' ''x/''))"
    by blast
  moreover from r1 have "PrepareMsgs (createState node0)
      = fmupd (NodeID (MyInfo node0)) None fmempty"
    by blast
  ultimately show ?thesis by (simp only: me simp_thms)
qed

text \<open>
  C6, which fails as stated. Node \<^verbatim>\<open>R3\<close> holds the pending instance of sequence
  number 5 and the CHECKPOINT messages of \<^verbatim>\<open>R1\<close> and \<^verbatim>\<open>R2\<close> with the digests \<^verbatim>\<open>a\<close> and
  \<^verbatim>\<open>b\<close>. Its own CHECKPOINT with digest \<^verbatim>\<open>c\<close> makes three messages, no two of them with
  the same digest, and the checkpoint becomes stable.
\<close>

theorem stable_with_different_digests:
  "StableCheckPoint (nodeAt 5 ''a'' ''b'') = 0
   \<and> StableCheckPoint (CheckPoint (nodeAt 5 ''a'' ''b'') (checkPoint0 5 ''R3'' ''c'')) = 5
   \<and> fmlookup (CheckPointMsgsLog (saveCheckPointMsg (nodeAt 5 ''a'' ''b'')
         (checkPoint0 5 ''R3'' ''c''))) 5
     = Some (fmupd ''R3'' (checkPoint0 5 ''R3'' ''c'')
              (fmupd ''R2'' (checkPoint0 5 ''R2'' ''b'')
                (fmupd ''R1'' (checkPoint0 5 ''R1'' ''a'') fmempty)))"
  by (simp add: nodeAt_def node0_def nodeInfo_def checkPoint0_def CheckPoint_def
      saveCheckPointMsg_def Checkpointchk_def lenCheckPointMsgs_def ownCheckPointMsg_def
      prePreparedState_4 periodCheckPoint_def fcard_finsert_if Let_def)

text \<open>
  C6, amended. The checkpoint of a CHECKPOINT message for sequence number \<open>s\<close> becomes
  stable (the stable checkpoint moves) exactly when the registry holds an instance for
  \<open>s\<close> that is still pending, the log, with this message stored, holds the replica's own
  CHECKPOINT for \<open>s\<close>, and it holds CHECKPOINT messages for \<open>s\<close> of at least \<open>2f + 1\<close>
  nodes. The digests are not compared.
\<close>

theorem checkpoint_stable_iff:
  "(StableCheckPoint (CheckPoint node msg) \<noteq> StableCheckPoint node)
     = (\<exists>state. fmlookup (States node) (cSequenceID msg) = Some state
          \<and> CheckPointState state = 0
          \<and> 2 * f state + 1
               \<le> lenCheckPointMsgs (saveCheckPointMsg node msg) (cSequenceID msg)
          \<and> ownCheckPointMsg (saveCheckPointMsg node msg) (cSequenceID msg) \<noteq> None)"
  by (simp only: StableCheckPoint_moves_iff checkPointPasses_def)

theorem checkpoint_stable_iff_witness:
  "StableCheckPoint (CheckPoint (nodeAt 5 ''d'' ''d'') (checkPoint0 5 ''R3'' ''d''))
     \<noteq> StableCheckPoint (nodeAt 5 ''d'' ''d'')
   \<and> StableCheckPoint (CheckPoint (nodeAt 5 ''d'' ''d'') (checkPoint0 5 ''R1'' ''d''))
     = StableCheckPoint (nodeAt 5 ''d'' ''d'')"
proof -
  let ?n = "nodeAt 5 ''d'' ''d''"
  have own: "\<exists>state. fmlookup (States ?n) (cSequenceID (checkPoint0 5 ''R3'' ''d'')) = Some state
      \<and> CheckPointState state = 0
      \<and> 2 * f state + 1 \<le> lenCheckPointMsgs
            (saveCheckPointMsg ?n (checkPoint0 5 ''R3'' ''d''))
            (cSequenceID (checkPoint0 5 ''R3'' ''d''))
      \<and> ownCheckPointMsg (saveCheckPointMsg ?n (checkPoint0 5 ''R3'' ''d''))
            (cSequenceID (checkPoint0 5 ''R3'' ''d'')) \<noteq> None"
    by (simp add: nodeAt_def node0_def nodeInfo_def checkPoint0_def saveCheckPointMsg_def
        lenCheckPointMsgs_def ownCheckPointMsg_def prePreparedState_4 fcard_finsert_if
        Let_def)
  have other: "\<not> (\<exists>state. fmlookup (States ?n) (cSequenceID (checkPoint0 5 ''R1'' ''d''))
        = Some state
      \<and> CheckPointState state = 0
      \<and> 2 * f state + 1 \<le> lenCheckPointMsgs
            (saveCheckPointMsg ?n (checkPoint0 5 ''R1'' ''d''))
            (cSequenceID (checkPoint0 5 ''R1'' ''d''))
      \<and> ownCheckPointMsg (saveCheckPointMsg ?n (checkPoint0 5 ''R1'' ''d''))
            (cSequenceID (checkPoint0 5 ''R1'' ''d'')) \<noteq> None)"
    by (simp add: nodeAt_def node0_def nodeInfo_def checkPoint0_def saveCheckPointMsg_def
        lenCheckPointMsgs_def ownCheckPointMsg_def prePreparedState_4 fcard_finsert_if
        Let_def)
  from own other
    checkpoint_stable_iff [of ?n "checkPoint0 5 ''R3'' ''d''"]
    checkpoint_stable_iff [of ?n "checkPoint0 5 ''R1'' ''d''"]
  show ?thesis by blast
qed

text \<open>
  C7, which fails as stated. When the checkpoint at 5 becomes stable on node \<^verbatim>\<open>R3\<close>, the
  stable checkpoint is 5 and the registry still holds the instance of sequence
  number 5, now marked stable. And when the first checkpoint to become stable is the
  one at 10, the stable checkpoint is set to 5, not to 10.
\<close>

theorem stable_instance_kept:
  "StableCheckPoint (CheckPoint (nodeAt 5 ''d'' ''d'') (checkPoint0 5 ''R3'' ''d'')) = 5
   \<and> fmlookup (States (CheckPoint (nodeAt 5 ''d'' ''d'') (checkPoint0 5 ''R3'' ''d''))) 5
     = Some ((prePreparedState 4)\<lparr>StateSequenceID := 5, CheckPointState := 1\<rparr>)
   \<and> StableCheckPoint (nodeAt 10 ''d'' ''d'') = 0
   \<and> StableCheckPoint (CheckPoint (nodeAt 10 ''d'' ''d'') (checkPoint0 10 ''R3'' ''d'')) = 5"
  by (simp add: nodeAt_def node0_def nodeInfo_def checkPoint0_def CheckPoint_def
      saveCheckPointMsg_def Checkpointchk_def lenCheckPointMsgs_def ownCheckPointMsg_def
      prePreparedState_4 periodCheckPoint_def fcard_finsert_if Let_def word_sless_alt)

text \<open>
  C7, amended. When the checkpoint of a CHECKPOINT message becomes stable, the stable
  checkpoint moves up by the checkpoint period, 5; afterwards neither the registry nor
  the checkpoint log has a key below the new stable checkpoint, in the signed order of
  \<^verbatim>\<open>int64\<close>. The instance of the message stays in the registry, marked stable, unless
  its sequence number is below the new stable checkpoint.
\<close>

theorem stable_checkpoint_purges:
  assumes "StableCheckPoint (CheckPoint node msg) \<noteq> StableCheckPoint node"
  shows "StableCheckPoint (CheckPoint node msg) = StableCheckPoint node + periodCheckPoint
    \<and> (\<forall>k. k |\<in>| fmdom (States (CheckPoint node msg)) \<longrightarrow>
          \<not> word_sless k (StableCheckPoint (CheckPoint node msg)))
    \<and> (\<forall>k. k |\<in>| fmdom (CheckPointMsgsLog (CheckPoint node msg)) \<longrightarrow>
          \<not> word_sless k (StableCheckPoint (CheckPoint node msg)))
    \<and> (\<not> word_sless (cSequenceID msg) (StableCheckPoint (CheckPoint node msg)) \<longrightarrow>
          (\<exists>state. fmlookup (States (CheckPoint node msg)) (cSequenceID msg) = Some state
             \<and> CheckPointState state = 1))"
proof -
  from assms have "checkPointPasses node msg"
    by (simp only: StableCheckPoint_moves_iff)
  from CheckPoint_passes [OF this] obtain state where
    st: "StableCheckPoint (CheckPoint node msg) = StableCheckPoint node + periodCheckPoint"
    and regs: "States (CheckPoint node msg) =
         fmfilter (\<lambda>v. \<not> word_sless v (StableCheckPoint node + periodCheckPoint))
           (fmupd (cSequenceID msg) (state\<lparr>CheckPointState := 1\<rparr>) (States node))"
    and log: "CheckPointMsgsLog (CheckPoint node msg) =
         fmfilter (\<lambda>v. \<not> word_sless v (StableCheckPoint node + periodCheckPoint))
           (CheckPointMsgsLog (saveCheckPointMsg node msg))"
    by blast
  have "\<forall>k. k |\<in>| fmdom (States (CheckPoint node msg)) \<longrightarrow>
          \<not> word_sless k (StableCheckPoint (CheckPoint node msg))"
    unfolding regs st by auto
  moreover have "\<forall>k. k |\<in>| fmdom (CheckPointMsgsLog (CheckPoint node msg)) \<longrightarrow>
          \<not> word_sless k (StableCheckPoint (CheckPoint node msg))"
    unfolding log st by auto
  moreover have "\<not> word_sless (cSequenceID msg) (StableCheckPoint (CheckPoint node msg)) \<longrightarrow>
          (\<exists>state. fmlookup (States (CheckPoint node msg)) (cSequenceID msg) = Some state
             \<and> CheckPointState state = 1)"
    unfolding regs st by simp
  ultimately show ?thesis using st by blast
qed

theorem stable_checkpoint_purges_witness:
  "StableCheckPoint (CheckPoint (nodeAt 5 ''d'' ''d'') (checkPoint0 5 ''R3'' ''d''))
     = StableCheckPoint (nodeAt 5 ''d'' ''d'') + periodCheckPoint
   \<and> (\<exists>state. fmlookup (States (CheckPoint (nodeAt 5 ''d'' ''d'')
         (checkPoint0 5 ''R3'' ''d''))) (cSequenceID (checkPoint0 5 ''R3'' ''d'')) = Some state
        \<and> CheckPointState state = 1)"
proof -
  let ?n = "nodeAt 5 ''d'' ''d''"
  let ?m = "checkPoint0 5 ''R3'' ''d''"
  have moved: "StableCheckPoint (CheckPoint ?n ?m) \<noteq> StableCheckPoint ?n"
    by (simp add: nodeAt_def node0_def nodeInfo_def checkPoint0_def CheckPoint_def
      saveCheckPointMsg_def Checkpointchk_def lenCheckPointMsgs_def ownCheckPointMsg_def
      prePreparedState_4 periodCheckPoint_def fcard_finsert_if Let_def)
  have at: "\<not> word_sless (cSequenceID ?m) (StableCheckPoint (CheckPoint ?n ?m))"
    by (simp add: nodeAt_def node0_def nodeInfo_def checkPoint0_def CheckPoint_def
      saveCheckPointMsg_def Checkpointchk_def lenCheckPointMsgs_def ownCheckPointMsg_def
      prePreparedState_4 periodCheckPoint_def fcard_finsert_if Let_def word_sless_alt)
  from stable_checkpoint_purges [OF moved] at show ?thesis by blast
qed

section \<open>The log of the executor\<close>

lemma lastSequenceID_ordered:
  assumes "orderedLog (CommittedMsgs node)"
  shows "lastSequenceID node = of_nat (length (CommittedMsgs node))"
proof (cases "CommittedMsgs node = []")
  case True
  then show ?thesis by (simp add: lastSequenceID_def)
next
  case False
  then obtain n where n: "length (CommittedMsgs node) = Suc n"
    by (cases "CommittedMsgs node") auto
  with assms have "SequenceID (CommittedMsgs node ! n) = of_nat (Suc n)"
    by (simp add: orderedLog_def)
  moreover from False n have "last (CommittedMsgs node) = CommittedMsgs node ! n"
    by (simp add: last_conv_nth)
  ultimately show ?thesis using False n by (simp add: lastSequenceID_def)
qed

lemma orderedLog_snoc:
  assumes "orderedLog log" and "SequenceID x = of_nat (length log) + 1"
  shows "orderedLog (log @ [x])"
  using assms by (auto simp: orderedLog_def nth_append less_Suc_eq)

lemma pairsKeyed_fmdrop: "pairsKeyed pairs \<Longrightarrow> pairsKeyed (fmdrop k pairs)"
  by (auto simp: pairsKeyed_def split: if_splits)

lemma pairsKeyed_fmupd:
  "pairsKeyed pairs \<Longrightarrow> pairsKeyed (fmupd (SequenceID (committedMsg p)) p pairs)"
  by (auto simp: pairsKeyed_def split: if_splits)

lemma executeLoop_ordered:
  assumes "executeLoop Dg node pairs = Inr (node', pairs')"
      and "orderedLog (CommittedMsgs node)" and "pairsKeyed pairs"
  shows "orderedLog (CommittedMsgs node') \<and> pairsKeyed pairs'"
  using assms
proof (induction Dg node pairs rule: executeLoop.induct)
  case (1 Dg node pairs)
  let ?k = "lastSequenceID node + 1"
  show ?case
  proof (cases "fmlookup pairs ?k")
    case None
    with "1.prems" show ?thesis by (simp add: executeLoop.simps)
  next
    case (Some p)
    let ?node1 = "node\<lparr>CommittedMsgs := CommittedMsgs node @ [committedMsg p]\<rparr>"
    let ?node2 = "Reply ?node1 ((replyMsg p)\<lparr>rResult := ''Executed''\<rparr>)"
    let ?n = "CheckPointSendPoint ?node2 + periodCheckPoint"
    from Some "1.prems"(3) have "SequenceID (committedMsg p) = ?k"
      by (simp add: pairsKeyed_def)
    with lastSequenceID_ordered [OF "1.prems"(2)]
    have "SequenceID (committedMsg p) = of_nat (length (CommittedMsgs node)) + 1" by simp
    with "1.prems"(2) have ord: "orderedLog (CommittedMsgs ?node2)"
      by (simp add: orderedLog_snoc)
    have keyed: "pairsKeyed (fmdrop ?k pairs)"
      using "1.prems"(3) by (rule pairsKeyed_fmdrop)
    show ?thesis
    proof (cases "SequenceID (last (CommittedMsgs ?node2)) = ?n")
      case True
      show ?thesis
      proof (cases "getCheckPointMsg Dg (SequenceID (last (CommittedMsgs ?node2)))
                      (NodeID (MyInfo ?node2)) (last (CommittedMsgs ?node2))")
        case (Inl err)
        with Some True "1.prems"(1) show ?thesis
          by (simp add: executeLoop.simps [of Dg node pairs] Let_def)
      next
        case (Inr checkPointMsg)
        let ?node3 = "CheckPoint (Broadcast (?node2\<lparr>CheckPointSendPoint := ?n\<rparr>)
                        (CheckPointPayload checkPointMsg) ''/checkpoint'') checkPointMsg"
        from Some True Inr "1.prems"(1)
        have run: "executeLoop Dg ?node3 (fmdrop ?k pairs) = Inr (node', pairs')"
          by (simp add: executeLoop.simps [of Dg node pairs] Let_def)
        from ord have "orderedLog (CommittedMsgs ?node3)" by simp
        from "1.IH"(1) [OF Some refl refl refl True Inr run this keyed] show ?thesis .
      qed
    next
      case False
      from Some False "1.prems"(1)
      have run: "executeLoop Dg ?node2 (fmdrop ?k pairs) = Inr (node', pairs')"
        by (simp add: executeLoop.simps [of Dg node pairs] Let_def)
      from "1.IH"(2) [OF Some refl refl refl False run ord keyed] show ?thesis .
    qed
  qed
qed

lemma executeMsg_ordered:
  assumes "executeMsg Dg node pairs msgPairs = Inr (node', pairs')"
      and "orderedLog (CommittedMsgs node)" and "pairsKeyed pairs"
  shows "orderedLog (CommittedMsgs node') \<and> pairsKeyed pairs'"
  using assms
proof (induction msgPairs arbitrary: node pairs)
  case Nil
  then show ?case by simp
next
  case (Cons msgPair rest)
  from Cons.prems(1) obtain node1 pairs1 where
    round: "executeRound Dg node pairs msgPair = Inr (node1, pairs1)"
    and rest: "executeMsg Dg node1 pairs1 rest = Inr (node', pairs')"
    by (auto split: sum.splits)
  from round have "executeLoop Dg node
      (fmupd (SequenceID (committedMsg msgPair)) msgPair pairs) = Inr (node1, pairs1)"
    by (simp add: executeRound_def)
  from executeLoop_ordered [OF this Cons.prems(2) pairsKeyed_fmupd [OF Cons.prems(3)]]
  have "orderedLog (CommittedMsgs node1)" and "pairsKeyed pairs1" by simp_all
  with Cons.IH [OF rest] show ?case by simp
qed

lemma sint_of_nat64:
  assumes "n < 2 ^ 63"
  shows "sint (of_nat n :: int64) = int n"
proof -
  from assms have "int n < 2 ^ 63" by simp
  then have "signed_take_bit 63 (int n) = int n"
    by (simp add: signed_take_bit_int_eq_self)
  then show ?thesis by (simp add: signed_of_nat)
qed

section \<open>The claim about the executor\<close>

text \<open>
  C3. The executor starts with an empty log and an empty map of pairs. Whatever pairs
  the channel delivers, in whatever order, after each of them the request at index \<open>i\<close>
  of \<^verbatim>\<open>CommittedMsgs\<close> has sequence number \<open>i + 1\<close>: the requests are logged in the order
  of their sequence numbers, from 1 on, without a gap and none of them twice. (The
  sequence numbers are \<^verbatim>\<open>int64\<close>; a Go slice has fewer than \<open>2 ^ 63\<close> elements, and below
  that length the signed value of the sequence number at index \<open>i\<close> is \<open>i + 1\<close>.)
\<close>

theorem executor_log_ordered:
  assumes "CommittedMsgs node = []"
      and "executeMsg Dg node fmempty msgPairs = Inr (node', pairs')"
  shows "orderedLog (CommittedMsgs node')
     \<and> (length (CommittedMsgs node') < 2 ^ 63 \<longrightarrow>
          (\<forall>i<length (CommittedMsgs node').
             sint (SequenceID (CommittedMsgs node' ! i)) = int i + 1)
          \<and> distinct (map SequenceID (CommittedMsgs node')))"
proof -
  let ?log = "CommittedMsgs node'"
  have "orderedLog (CommittedMsgs node)" and "pairsKeyed fmempty"
    using assms(1) by (simp_all add: orderedLog_def pairsKeyed_def)
  from executeMsg_ordered [OF assms(2) this] have ord: "orderedLog ?log" by simp
  have reading: "sint (SequenceID (?log ! i)) = int i + 1"
    if "length ?log < 2 ^ 63" and "i < length ?log" for i
  proof -
    from that have "i + 1 < 2 ^ 63" by simp
    then have "sint (of_nat (i + 1) :: int64) = int (i + 1)" by (rule sint_of_nat64)
    with ord that(2) show ?thesis by (simp add: orderedLog_def)
  qed
  have "distinct (map SequenceID ?log)" if len: "length ?log < 2 ^ 63"
  proof -
    have "map SequenceID ?log ! i \<noteq> map SequenceID ?log ! j"
      if "i < length ?log" and "j < length ?log" and "i \<noteq> j" for i j
    proof
      assume "map SequenceID ?log ! i = map SequenceID ?log ! j"
      with that have "sint (SequenceID (?log ! i)) = sint (SequenceID (?log ! j))" by simp
      with reading [OF len that(1)] reading [OF len that(2)] that(3) show False by simp
    qed
    then show ?thesis by (simp add: distinct_conv_nth)
  qed
  with ord reading show ?thesis by blast
qed

theorem executor_log_ordered_witness:
  "CommittedMsgs (fst (projr (executeMsg Dg0 node0 fmempty [msgPair0 2, msgPair0 1])))
     = [req0\<lparr>SequenceID := 1\<rparr>, req0\<lparr>SequenceID := 2\<rparr>]
   \<and> map (rResult \<circ> replyOf) (MsgOutbound
        (fst (projr (executeMsg Dg0 node0 fmempty [msgPair0 2, msgPair0 1]))))
     = [''Executed'', ''Executed'']
   \<and> sint (SequenceID (CommittedMsgs
        (fst (projr (executeMsg Dg0 node0 fmempty [msgPair0 2, msgPair0 1]))) ! 1))
       = int 1 + 1
   \<and> distinct (map SequenceID (CommittedMsgs
        (fst (projr (executeMsg Dg0 node0 fmempty [msgPair0 2, msgPair0 1])))))"
proof -
  let ?r = "\<lambda>n. \<lparr> Path = ''/reply'', Msg = ReplyPayload ((replyMsg (msgPair0 n))\<lparr>rResult := ''Executed''\<rparr>) \<rparr>"
  let ?node = "node0\<lparr>CommittedMsgs := [req0\<lparr>SequenceID := 1\<rparr>, req0\<lparr>SequenceID := 2\<rparr>],
                     MsgOutbound := [?r 1, ?r 2]\<rparr>"
  have empty: "CommittedMsgs node0 = []" by (simp add: node0_def)
  have r1: "executeRound Dg0 node0 fmempty (msgPair0 2)
              = Inr (node0, fmupd 2 (msgPair0 2) fmempty)"
    by (simp add: executeRound_def executeLoop.simps lastSequenceID_def node0_def
        msgPair0_def)
  have r2: "executeRound Dg0 node0 (fmupd 2 (msgPair0 2) fmempty) (msgPair0 1)
              = Inr (?node, fmempty)"
    by (simp add: executeRound_def executeLoop.simps lastSequenceID_def node0_def
        nodeInfo_def msgPair0_def periodCheckPoint_def Reply_def Broadcast_def Let_def
        fmdrop_fmupd)
  have run: "executeMsg Dg0 node0 fmempty [msgPair0 2, msgPair0 1] = Inr (?node, fmempty)"
    by (simp add: r1 r2)
  have len: "length (CommittedMsgs ?node) < 2 ^ 63" and i: "1 < length (CommittedMsgs ?node)"
    by simp_all
  from executor_log_ordered [OF empty run] len i
  have "sint (SequenceID (CommittedMsgs ?node ! 1)) = int 1 + 1"
    and "distinct (map SequenceID (CommittedMsgs ?node))"
    by blast+
  then show ?thesis unfolding run by (simp add: replyOf_def)
qed

end
